theory Spec2Isabelle
  imports
    Complex_Main
    "HOL-Library.Product_Lexorder"
    "HOL-Library.Char_ord"
    "HOL-Library.List_Lexorder"
begin

section \<open>Entity markup converter: data model\<close>

text \<open>
  A shallow embedding of \<^verbatim>\<open>entity_markup_converter.py\<close>. A Python \<^verbatim>\<open>str\<close> is a
  \<^typ>\<open>string\<close>, one list element per character of the Python string; Python integers
  are \<^typ>\<open>int\<close>, results of \<^verbatim>\<open>len\<close> and of \<^verbatim>\<open>str.find\<close> (once found) are
  \<^typ>\<open>nat\<close>. The source tag of a span is one of the three strings the extractor
  writes, so it is an enumeration.
\<close>

datatype source = ground_truth | mistral | gpt4

record EntitySpan =
  start :: int
  end_pos :: int
  span_text :: string
  types :: "string list"
  source :: source
  occurrence_id :: int

record ComparisonResult =
  exact_matches :: nat
  partial_matches :: nat
  type_mismatches :: nat
  ground_truth_only :: nat
  model_only :: nat
  total_ground_truth :: nat
  total_model :: nat

text \<open>One entry of \<^verbatim>\<open>labels\<close> or of a model output: \<^verbatim>\<open>{span: ..., types: [...]}\<close>.\<close>

record annotation =
  span :: string
  span_types :: "string list"

text \<open>
  One JSON-lines record. The three annotation arrays are read with
  \<^verbatim>\<open>item.get(key, [])\<close>, so each may be absent.
\<close>

record item =
  item_text :: string
  labels :: "annotation list option"
  mistral_small_3_2_output :: "annotation list option"
  gpt_4o_mini_output :: "annotation list option"

datatype py_error = ValueError

definition entity_colors_table :: "(string \<times> string) list" where
  "entity_colors_table =
     [(''E21 Person'', ''#FF6B6B''),
      (''E53 Place'', ''#4ECDC4''),
      (''E52 Time-Span'', ''#45B7D1''),
      (''E54 Dimension'', ''#96CEB4''),
      (''E19 Physical Thing'', ''#FFEAA7''),
      (''E74 Group'', ''#DDA0DD''),
      (''E86 Leaving'', ''#F39C12''),
      (''E9 Move'', ''#E17055''),
      (''F2 Expression'', ''#A29BFE''),
      (''E31 Document'', ''#FD79A8''),
      (''E55 Type'', ''#FDCB6E''),
      (''E7 Activity'', ''#6C5CE7''),
      (''default'', ''#BDC3C7'')]"

definition entity_colors :: "string \<Rightarrow> string option" where
  "entity_colors = map_of entity_colors_table"

definition default_color :: string where
  "default_color = ''#BDC3C7''"

fun source_labels :: "source \<Rightarrow> string" where
  "source_labels ground_truth = ''Ground Truth''"
| "source_labels mistral = ''Mistral Small 3.2''"
| "source_labels gpt4 = ''GPT-4o Mini''"

text \<open>The source tag as the string the code stores in \<^verbatim>\<open>EntitySpan.source\<close>.\<close>

fun source_name :: "source \<Rightarrow> string" where
  "source_name ground_truth = ''ground_truth''"
| "source_name mistral = ''mistral''"
| "source_name gpt4 = ''gpt4''"

section \<open>Python string primitives\<close>

text \<open>
  \<^verbatim>\<open>text.find(sub, start)\<close> for \<open>start \<ge> 0\<close>: the lowest index \<open>i \<ge> start\<close> at which
  \<open>sub\<close> occurs wholly inside \<open>text\<close>; \<open>None\<close> stands for the result \<open>-1\<close>.
\<close>

function py_find :: "string \<Rightarrow> string \<Rightarrow> nat \<Rightarrow> nat option" where
  "py_find t s i =
     (if length t < i + length s then None
      else if take (length s) (drop i t) = s then Some i
      else py_find t s (Suc i))"
  by pat_completeness auto
termination
  by (relation "measure (\<lambda>(t, s, i). Suc (length t) - i)") auto

declare py_find.simps [simp del]

lemma py_find_Some_bounds:
  "py_find t s i = Some p \<Longrightarrow> i \<le> p \<and> p + length s \<le> length t"
proof (induction t s i rule: py_find.induct)
  case (1 t s i)
  show ?case
  proof (cases "length t < i + length s")
    case True
    with "1.prems" show ?thesis by (simp add: py_find.simps [of t s i])
  next
    case False
    show ?thesis
    proof (cases "take (length s) (drop i t) = s")
      case True
      with False "1.prems" show ?thesis by (simp add: py_find.simps [of t s i])
    next
      case nomatch: False
      with False "1.prems" have "py_find t s (Suc i) = Some p"
        by (simp add: py_find.simps [of t s i])
      with "1.IH" False nomatch show ?thesis by fastforce
    qed
  qed
qed

text \<open>\<^verbatim>\<open>sub in text\<close>.\<close>

definition py_contains :: "string \<Rightarrow> string \<Rightarrow> bool" where
  "py_contains t s = (py_find t s 0 \<noteq> None)"

text \<open>
  The index Python's slicing computes from a bound: a negative bound counts from the
  end, and the result is clamped to \<open>[0, len]\<close>.
\<close>

definition slice_index :: "nat \<Rightarrow> int \<Rightarrow> nat" where
  "slice_index n i = (if i < 0 then nat (max 0 (int n + i)) else min n (nat i))"

text \<open>\<^verbatim>\<open>text[a:b]\<close> and \<^verbatim>\<open>text[a:]\<close>.\<close>

definition py_slice :: "string \<Rightarrow> int \<Rightarrow> int \<Rightarrow> string" where
  "py_slice t a b =
     (let i = slice_index (length t) a; j = slice_index (length t) b
      in take (j - i) (drop i t))"

definition py_slice_from :: "string \<Rightarrow> int \<Rightarrow> string" where
  "py_slice_from t a = drop (slice_index (length t) a) t"

text \<open>\<^verbatim>\<open>sep.join(parts)\<close>.\<close>

fun py_join :: "string \<Rightarrow> string list \<Rightarrow> string" where
  "py_join sep [] = []"
| "py_join sep [x] = x"
| "py_join sep (x # y # ys) = x @ sep @ py_join sep (y # ys)"

text \<open>
  \<^verbatim>\<open>s.replace(old, new)\<close>: every non-overlapping occurrence of \<open>old\<close>, found left to
  right, is replaced; an empty \<open>old\<close> matches before every character and at the end.
\<close>

fun replace_scan :: "string \<Rightarrow> string \<Rightarrow> string \<Rightarrow> string" where
  "replace_scan old new [] = []"
| "replace_scan old new (c # cs) =
     (if take (length old) (c # cs) = old
      then new @ replace_scan old new (drop (length old - 1) cs)
      else c # replace_scan old new cs)"

definition py_replace :: "string \<Rightarrow> string \<Rightarrow> string \<Rightarrow> string" where
  "py_replace s old new =
     (if old = [] then new @ concat (map (\<lambda>c. c # new) s) else replace_scan old new s)"

text \<open>
  \<^verbatim>\<open>html.escape(s)\<close> with its default \<^verbatim>\<open>quote=True\<close>. The library replaces
  \<^verbatim>\<open>&\<close> first and then the other four characters, which is this character map.
\<close>

definition escape_char :: "char \<Rightarrow> string" where
  \<open>escape_char c =
     (if c = CHR ''&'' then ''&amp;''
      else if c = CHR ''<'' then ''&lt;''
      else if c = CHR ''>'' then ''&gt;''
      else if c = CHR 0x22 then ''&quot;''
      else if c = CHR 0x27 then ''&#x27;''
      else [c])\<close>

definition html_escape :: "string \<Rightarrow> string" where
  "html_escape s = concat (map escape_char s)"

text \<open>\<^verbatim>\<open>str(n)\<close> for an integer, as an f-string writes it.\<close>

definition digit_char :: "nat \<Rightarrow> char" where
  "digit_char d = char_of (48 + d)"

function str_nat :: "nat \<Rightarrow> string" where
  "str_nat n = (if n < 10 then [digit_char n] else str_nat (n div 10) @ [digit_char (n mod 10)])"
  by pat_completeness auto
termination
  by (relation "measure id") auto

declare str_nat.simps [simp del]

definition str_int :: "int \<Rightarrow> string" where
  "str_int i = (if i < 0 then CHR ''-'' # str_nat (nat (- i)) else str_nat (nat i))"

section \<open>Entity extraction\<close>

text \<open>The \<^verbatim>\<open>while True\<close> loop of \<^verbatim>\<open>find_all_occurrences\<close>.\<close>

function find_loop :: "string \<Rightarrow> string \<Rightarrow> nat \<Rightarrow> (nat \<times> nat) list \<Rightarrow> (nat \<times> nat) list" where
  "find_loop t s start_idx occurrences =
     (case py_find t s start_idx of
        None \<Rightarrow> occurrences
      | Some pos \<Rightarrow> find_loop t s (pos + 1) (occurrences @ [(pos, pos + length s)]))"
  by pat_completeness auto
termination
proof (relation "measure (\<lambda>(t, s, i, occ). Suc (length t) - i)")
  show "wf (measure (\<lambda>(t, s, i, occ). Suc (length t) - i))" by simp
next
  fix t s :: string and start_idx pos :: nat and occurrences :: "(nat \<times> nat) list"
  assume "py_find t s start_idx = Some pos"
  then have "start_idx \<le> pos \<and> pos + length s \<le> length t" by (rule py_find_Some_bounds)
  then show "((t, s, pos + 1, occurrences @ [(pos, pos + length s)]), (t, s, start_idx, occurrences))
      \<in> measure (\<lambda>(t, s, i, occ). Suc (length t) - i)"
    by (simp del: upt_Suc) arith
qed

declare find_loop.simps [simp del]

definition find_all_occurrences :: "string \<Rightarrow> string \<Rightarrow> (nat \<times> nat) list" where
  "find_all_occurrences t s = find_loop t s 0 []"

text \<open>
  The inner \<^verbatim>\<open>for start, end in occurrences\<close> loop of \<^verbatim>\<open>extract_entities\<close>. The state
  is the \<^verbatim>\<open>span_counters\<close> dictionary (a \<^verbatim>\<open>defaultdict(int)\<close>, so a total function
  that is 0 where nothing was counted) and the \<^verbatim>\<open>entities\<close> list.
\<close>

type_synonym extract_state = "(string \<Rightarrow> int) \<times> EntitySpan list"

fun add_occurrences ::
  "string \<Rightarrow> string list \<Rightarrow> source \<Rightarrow> (nat \<times> nat) list \<Rightarrow> extract_state \<Rightarrow> extract_state" where
  "add_occurrences sp tys src [] st = st"
| "add_occurrences sp tys src ((s, e) # occ) (span_counters, entities) =
     (let span_counters' = span_counters(sp := span_counters sp + 1)
      in add_occurrences sp tys src occ
           (span_counters',
            entities @ [\<lparr>start = int s, end_pos = int e, span_text = sp, types = tys,
                          source = src, occurrence_id = span_counters' sp\<rparr>]))"

text \<open>The loop over the annotations of one source.\<close>

fun add_annotations :: "string \<Rightarrow> source \<Rightarrow> annotation list \<Rightarrow> extract_state \<Rightarrow> extract_state" where
  "add_annotations t src [] st = st"
| "add_annotations t src (a # as) st =
     add_annotations t src as
       (add_occurrences (span a) (span_types a) src (find_all_occurrences t (span a)) st)"

definition get_list :: "'a list option \<Rightarrow> 'a list" where
  "get_list v = (case v of None \<Rightarrow> [] | Some xs \<Rightarrow> xs)"

definition sort_key_of :: "EntitySpan \<Rightarrow> int \<times> int" where
  "sort_key_of x = (start x, - end_pos x)"

text \<open>
  \<^verbatim>\<open>extract_entities\<close>: ground truth first, then the two models, with the counters
  cleared before each model; \<^verbatim>\<open>sorted\<close> is stable, as \<^const>\<open>sort_key\<close> is.
\<close>

definition extract_unsorted :: "item \<Rightarrow> EntitySpan list" where
  "extract_unsorted it =
     (let t = item_text it;
          (c0, e0) = add_annotations t ground_truth (get_list (labels it)) (\<lambda>_. 0, []);
          (c1, e1) = add_annotations t mistral (get_list (mistral_small_3_2_output it)) (\<lambda>_. 0, e0);
          (c2, e2) = add_annotations t gpt4 (get_list (gpt_4o_mini_output it)) (\<lambda>_. 0, e1)
      in e2)"

definition extract_entities :: "item \<Rightarrow> EntitySpan list" where
  "extract_entities it = sort_key sort_key_of (extract_unsorted it)"

section \<open>Overlap resolution\<close>

definition overlaps :: "EntitySpan \<Rightarrow> EntitySpan \<Rightarrow> bool" where
  "overlaps entity group_entity =
     (start entity < end_pos group_entity \<and> end_pos entity > start group_entity)"

text \<open>The inner loop with its \<^verbatim>\<open>break\<close>.\<close>

fun overlaps_any :: "EntitySpan \<Rightarrow> EntitySpan list \<Rightarrow> bool" where
  "overlaps_any entity [] = False"
| "overlaps_any entity (g # gs) = (if overlaps entity g then True else overlaps_any entity gs)"

fun resolve_loop ::
  "EntitySpan list \<Rightarrow> EntitySpan list list \<Rightarrow> EntitySpan list \<Rightarrow> EntitySpan list list" where
  "resolve_loop [] groups current_group = groups @ [current_group]"
| "resolve_loop (entity # rest) groups current_group =
     (if overlaps_any entity current_group
      then resolve_loop rest groups (current_group @ [entity])
      else resolve_loop rest (groups @ [current_group]) [entity])"

definition resolve_overlaps :: "EntitySpan list \<Rightarrow> EntitySpan list list" where
  "resolve_overlaps entities =
     (case entities of [] \<Rightarrow> [] | e # rest \<Rightarrow> resolve_loop rest [] [e])"

section \<open>Specification of the substring search\<close>

text \<open>The specification's condition \<^verbatim>\<open>T[i:i+len(S)] == S\<close>.\<close>

definition matches_at :: "string \<Rightarrow> string \<Rightarrow> nat \<Rightarrow> bool" where
  "matches_at t s i = (take (length s) (drop i t) = s)"

section \<open>Specification of the overlap groups\<close>

text \<open>
  Two spans of a group are linked when a chain of spans of that group leads from one to
  the other, each overlapping the next.
\<close>

inductive linked :: "EntitySpan list \<Rightarrow> EntitySpan \<Rightarrow> EntitySpan \<Rightarrow> bool" for g where
  linked_refl: "a \<in> set g \<Longrightarrow> linked g a a"
| linked_step: "linked g a b \<Longrightarrow> c \<in> set g \<Longrightarrow> overlaps b c \<Longrightarrow> linked g a c"

definition chain_connected :: "EntitySpan list \<Rightarrow> bool" where
  "chain_connected g = (\<forall>a\<in>set g. \<forall>b\<in>set g. linked g a b)"

definition before :: "EntitySpan list \<Rightarrow> EntitySpan list \<Rightarrow> bool" where
  "before g h = (\<forall>a\<in>set g. \<forall>b\<in>set h. end_pos a \<le> start b)"

definition no_cross_overlap :: "EntitySpan list list \<Rightarrow> bool" where
  "no_cross_overlap gs =
     (\<forall>i<length gs. \<forall>j<length gs. i \<noteq> j \<longrightarrow>
        (\<forall>a\<in>set (gs ! i). \<forall>b\<in>set (gs ! j). \<not> overlaps a b))"

text \<open>Example spans for the concrete evaluations below.\<close>

definition example_span :: "int \<Rightarrow> int \<Rightarrow> string \<Rightarrow> EntitySpan" where
  "example_span a b t =
     \<lparr>start = a, end_pos = b, span_text = t, types = [''E21 Person''],
      source = ground_truth, occurrence_id = 1\<rparr>"

definition overlap_example :: "EntitySpan list" where
  "overlap_example =
     [example_span 0 5 ''abcde'', example_span 1 3 ''bc'', example_span 4 8 ''efgh'',
      example_span 10 12 ''kl'']"

definition empty_span_example :: "EntitySpan list" where
  "empty_span_example =
     [example_span 0 5 ''abcde'', example_span 0 0 '''', example_span 1 3 ''bc'']"

section \<open>Specification of the extracted spans\<close>

definition well_placed :: "string \<Rightarrow> EntitySpan \<Rightarrow> bool" where
  "well_placed t e =
     (0 \<le> start e \<and> start e \<le> end_pos e \<and> end_pos e \<le> int (length t)
      \<and> (span_text e = [] \<or> start e < end_pos e)
      \<and> span_text e = py_slice t (start e) (end_pos e))"

definition empty_span_item :: item where
  "empty_span_item =
     \<lparr>item_text = ''ab'',
      labels = Some [\<lparr>span = '''', span_types = [''E21 Person'']\<rparr>],
      mistral_small_3_2_output = None, gpt_4o_mini_output = None\<rparr>"

definition repeated_item :: item where
  "repeated_item =
     \<lparr>item_text = ''ab ab ab'',
      labels = Some [\<lparr>span = ''ab'', span_types = [''E21 Person'']\<rparr>],
      mistral_small_3_2_output = None, gpt_4o_mini_output = None\<rparr>"

section \<open>Comparison metrics\<close>

type_synonym span_key = "int \<times> int \<times> string list"

definition span_keys :: "EntitySpan list \<Rightarrow> span_key set" where
  "span_keys es = set (map (\<lambda>e. (start e, end_pos e, sort (types e))) es)"

definition positions :: "EntitySpan list \<Rightarrow> (int \<times> int) set" where
  "positions es = set (map (\<lambda>e. (start e, end_pos e)) es)"

definition compare_annotations :: "EntitySpan list \<Rightarrow> EntitySpan list \<Rightarrow> ComparisonResult" where
  "compare_annotations gt model_entities =
     (let gt_spans = span_keys gt;
          model_spans = span_keys model_entities;
          gt_positions = positions gt;
          model_positions = positions model_entities;
          overlapping_positions = gt_positions \<inter> model_positions;
          exact_match_positions = (\<lambda>(s, e, _). (s, e)) ` (gt_spans \<inter> model_spans)
      in \<lparr>exact_matches = card (gt_spans \<inter> model_spans),
          partial_matches = card (overlapping_positions - exact_match_positions),
          type_mismatches = 0,
          ground_truth_only = card (gt_spans - model_spans),
          model_only = card (model_spans - gt_spans),
          total_ground_truth = card gt_spans,
          total_model = card model_spans\<rparr>)"

text \<open>
  The running totals of \<^verbatim>\<open>generate_html_report\<close>: one \<^verbatim>\<open>ComparisonResult()\<close> per model,
  to which the six counters of every record's comparison are added.
\<close>

definition empty_comparison :: ComparisonResult where
  "empty_comparison =
     \<lparr>exact_matches = 0, partial_matches = 0, type_mismatches = 0, ground_truth_only = 0,
      model_only = 0, total_ground_truth = 0, total_model = 0\<rparr>"

definition accumulate :: "ComparisonResult \<Rightarrow> ComparisonResult \<Rightarrow> ComparisonResult" where
  "accumulate tot c =
     tot\<lparr>exact_matches := exact_matches tot + exact_matches c,
         partial_matches := partial_matches tot + partial_matches c,
         ground_truth_only := ground_truth_only tot + ground_truth_only c,
         model_only := model_only tot + model_only c,
         total_ground_truth := total_ground_truth tot + total_ground_truth c,
         total_model := total_model tot + total_model c\<rparr>"

text \<open>
  One iteration of the report loop for a record that parses; a line that does not parse is
  skipped by the code and adds nothing to the totals.
\<close>

definition process_item ::
  "ComparisonResult \<times> ComparisonResult \<Rightarrow> item \<Rightarrow> ComparisonResult \<times> ComparisonResult" where
  "process_item totals it =
     (let all_entities = extract_entities it;
          gt = filter (\<lambda>e. source e = ground_truth) all_entities;
          mistral_entities = filter (\<lambda>e. source e = mistral) all_entities;
          gpt4_entities = filter (\<lambda>e. source e = gpt4) all_entities;
          mistral_comparison = compare_annotations gt mistral_entities;
          gpt4_comparison = compare_annotations gt gpt4_entities
      in (accumulate (fst totals) mistral_comparison, accumulate (snd totals) gpt4_comparison))"

definition total_comparisons :: "item list \<Rightarrow> ComparisonResult \<times> ComparisonResult" where
  "total_comparisons items = foldl process_item (empty_comparison, empty_comparison) items"

text \<open>
  The quotients the report prints, \<^verbatim>\<open>exact_matches / max(total, 1)\<close>, as real numbers:
  the rounding of the floating-point division and the \<^verbatim>\<open>:.2%\<close> formatting are not
  modelled.
\<close>

definition precision :: "ComparisonResult \<Rightarrow> real" where
  "precision c = real (exact_matches c) / real (max (total_model c) 1)"

definition recall :: "ComparisonResult \<Rightarrow> real" where
  "recall c = real (exact_matches c) / real (max (total_ground_truth c) 1)"

section \<open>Specification of the metrics\<close>

definition ratio_or_zero :: "nat \<Rightarrow> nat \<Rightarrow> real" where
  "ratio_or_zero a b = (if b = 0 then 0 else real a / real b)"

definition metrics_as_specified :: "ComparisonResult \<Rightarrow> bool" where
  "metrics_as_specified c =
     (precision c = ratio_or_zero (exact_matches c) (total_model c)
      \<and> recall c = ratio_or_zero (exact_matches c) (total_ground_truth c)
      \<and> 0 \<le> precision c \<and> precision c \<le> 1
      \<and> 0 \<le> recall c \<and> recall c \<le> 1)"

definition exact_positions :: "EntitySpan list \<Rightarrow> EntitySpan list \<Rightarrow> (int \<times> int) set" where
  "exact_positions gt m = (\<lambda>(s, e, _). (s, e)) ` (span_keys gt \<inter> span_keys m)"

definition bounded_exact :: "ComparisonResult \<Rightarrow> bool" where
  "bounded_exact c = (exact_matches c \<le> total_model c \<and> exact_matches c \<le> total_ground_truth c)"

definition metrics_gt :: "EntitySpan list" where
  "metrics_gt =
     [\<lparr>start = 0, end_pos = 5, span_text = ''Paris'', types = [''A''],
       source = ground_truth, occurrence_id = 1\<rparr>]"

definition metrics_model :: "EntitySpan list" where
  "metrics_model =
     [\<lparr>start = 0, end_pos = 5, span_text = ''Paris'', types = [''A''],
       source = mistral, occurrence_id = 1\<rparr>,
      \<lparr>start = 10, end_pos = 15, span_text = ''Seine'', types = [''B''],
       source = mistral, occurrence_id = 1\<rparr>]"

section \<open>Markup rendering\<close>

definition nl :: string where
  "nl = [CHR 0x0A]"

fun get_primary_color :: "string list \<Rightarrow> string" where
  "get_primary_color [] = default_color"
| "get_primary_color (entity_type # rest) =
     (case entity_colors entity_type of
        Some color \<Rightarrow> color
      | None \<Rightarrow> get_primary_color rest)"

text \<open>The colours of the types that are keys of \<^verbatim>\<open>entity_colors\<close>, in the order of the types.\<close>

definition known_colors :: "string list \<Rightarrow> string list" where
  "known_colors tys = List.map_filter entity_colors tys"

definition gradient_stop :: "nat \<Rightarrow> nat \<Rightarrow> string \<Rightarrow> string" where
  "gradient_stop stripe_width i color =
     color @ '' '' @ str_nat (i * stripe_width) @ ''%, '' @
     color @ '' '' @ str_nat ((i + 1) * stripe_width) @ ''%''"

definition get_combined_colors :: "string list \<Rightarrow> string \<times> string" where
  "get_combined_colors tys =
     (if length tys \<le> 1 then (get_primary_color tys, get_primary_color tys)
      else
        (case known_colors tys of
           [] \<Rightarrow> (default_color, default_color)
         | [c] \<Rightarrow> (c, c)
         | [c0, c1] \<Rightarrow> (c0, ''linear-gradient(45deg, '' @ c0 @ '' 50%, '' @ c1 @ '' 50%)'')
         | c0 # c1 # c2 # others \<Rightarrow>
             (let colors = c0 # c1 # c2 # others;
                  stripe_width = 100 div length colors;
                  gradient_stops =
                    map (\<lambda>(i, color). gradient_stop stripe_width i color) (enumerate 0 colors)
              in (c0, ''linear-gradient(45deg, '' @ py_join '', '' gradient_stops @ '')''))))"

definition format_types :: "string list \<Rightarrow> string" where
  "format_types tys = py_join '', '' tys"

definition occurrence_suffix :: "EntitySpan \<Rightarrow> string" where
  "occurrence_suffix entity =
     (if occurrence_id entity > 1 then ''<sup>'' @ str_int (occurrence_id entity) @ ''</sup>''
      else [])"

definition multi_label_class :: "EntitySpan \<Rightarrow> string" where
  "multi_label_class entity =
     (if length (types entity) > 1
      then (if length (known_colors (types entity)) \<ge> 3 then ''triple-label'' else ''multi-label'')
      else [])"

definition css_variables :: "EntitySpan \<Rightarrow> string" where
  "css_variables entity =
     (if length (types entity) > 1
      then (case known_colors (types entity) of
              c0 # c1 # others \<Rightarrow>
                ''--primary-color: '' @ c0 @ ''; --secondary-color: '' @ c1 @ '';'' @
                (case others of [] \<Rightarrow> [] | c2 # _ \<Rightarrow> '' --tertiary-color: '' @ c2 @ '';'')
            | _ \<Rightarrow> [])
      else [])"

definition type_count_attr :: "EntitySpan \<Rightarrow> string" where
  \<open>type_count_attr entity =
     (if length (types entity) > 1
      then ''data-type-count="'' @ str_nat (length (types entity)) @ [CHR 0x22]
      else [])\<close>

definition type_item :: "string \<Rightarrow> string" where
  \<open>type_item entity_type =
     (let color = (case entity_colors entity_type of Some c \<Rightarrow> c | None \<Rightarrow> default_color)
      in ''<li class="type-item" style="border-left: 3px solid '' @ color @ '';">'' @
         entity_type @ ''</li>'')\<close>

definition tooltip_html :: "EntitySpan \<Rightarrow> string" where
  \<open>tooltip_html entity =
     nl @ ''        <div class="entity-tooltip">'' @
     nl @ ''            <div class="tooltip-section">'' @
     nl @ ''                <span class="tooltip-label">Source:</span> '' @
            source_labels (source entity) @
     nl @ ''            </div>'' @
     nl @ ''            <div class="tooltip-section">'' @
     nl @ ''                <span class="tooltip-label">Position:</span> '' @
            str_int (start entity) @ ''-'' @ str_int (end_pos entity) @
     nl @ ''            </div>'' @
     nl @ ''            <div class="tooltip-section">'' @
     nl @ ''                <span class="tooltip-label">Types:</span>'' @
     nl @ ''                <ul class="type-list">'' @
     nl @ ''        '' @
     concat (map type_item (types entity)) @
     nl @ ''                </ul>'' @
     nl @ ''            </div>'' @
     nl @ ''        </div>'' @
     nl @ ''        ''\<close>

definition types_attr :: "EntitySpan \<Rightarrow> string" where
  \<open>types_attr entity = ''data-types="'' @ py_join ''|'' (types entity) @ [CHR 0x22]\<close>

definition background_style :: "EntitySpan \<Rightarrow> string" where
  "background_style entity =
     (if length (types entity) > 1
      then ''background: '' @ snd (get_combined_colors (types entity)) @ '';''
      else ''background-color: '' @ snd (get_combined_colors (types entity)) @ '';'')"

text \<open>The opening tag of the returned element, up to and including its \<^verbatim>\<open>>\<close>.\<close>

definition opening_tag :: "EntitySpan \<Rightarrow> bool \<Rightarrow> string" where
  \<open>opening_tag entity is_primary =
     ''<span class="entity '' @ source_name (source entity) @ '' '' @ multi_label_class entity @
     ''" '' @
     ''style="'' @ background_style entity @ '' '' @ css_variables entity @
     '' opacity: '' @ (if is_primary then ''0.8'' else ''0.4'') @ ''; '' @
     ''border: 1px solid '' @ fst (get_combined_colors (types entity)) @ '';" '' @
     types_attr entity @ '' '' @ type_count_attr entity @ ''>''\<close>

definition create_entity_html :: "EntitySpan \<Rightarrow> bool \<Rightarrow> string" where
  "create_entity_html entity is_primary =
     opening_tag entity is_primary @
     html_escape (span_text entity) @ occurrence_suffix entity @
     tooltip_html entity @
     ''</span>''"

text \<open>\<^verbatim>\<open>max(group, key=lambda x: x.end - x.start)\<close>: the first span of greatest length.\<close>

fun longest_from :: "EntitySpan \<Rightarrow> EntitySpan list \<Rightarrow> EntitySpan" where
  "longest_from best [] = best"
| "longest_from best (x # xs) =
     longest_from (if end_pos x - start x > end_pos best - start best then x else best) xs"

text \<open>
  The two-character sequence backslash, \<open>n\<close> that the source writes as \<^verbatim>\<open>"\\n"\<close>: not a
  line break.
\<close>

definition backslash_n :: string where
  "backslash_n = [CHR 0x5C, CHR ''n'']"

definition secondary_summary :: "EntitySpan \<Rightarrow> string" where
  "secondary_summary secondary =
     source_labels (source secondary) @ '': '' @ format_types (types secondary)"

text \<open>
  The summaries of the secondary spans, put in front of the content of every
  \<^verbatim>\<open>title="\<close> attribute of the primary's markup.
\<close>

definition add_secondary_info :: "string \<Rightarrow> EntitySpan list \<Rightarrow> string" where
  \<open>add_secondary_info primary_html secondaries =
     (let secondary_info = map secondary_summary secondaries
      in if secondary_info \<noteq> []
         then (let tooltip_extra =
                     backslash_n @ ''Also annotated as:'' @ backslash_n @
                     py_join backslash_n secondary_info
               in py_replace primary_html ''title="''
                    (''title="'' @ tooltip_extra @ backslash_n))
         else primary_html)\<close>

text \<open>The markup of one overlap group with first span \<open>e\<close> and further spans \<open>es\<close>.\<close>

definition group_html :: "EntitySpan \<Rightarrow> EntitySpan list \<Rightarrow> string" where
  "group_html e es =
     (if length (e # es) = 1 then create_entity_html e True
      else
        (let primary = longest_from e es;
             secondaries = filter (\<lambda>x. x \<noteq> primary) (e # es)
         in add_secondary_info (create_entity_html primary True) secondaries))"

definition group_start :: "EntitySpan \<Rightarrow> EntitySpan list \<Rightarrow> int" where
  "group_start e es = foldl min (start e) (map start es)"

definition group_end :: "EntitySpan \<Rightarrow> EntitySpan list \<Rightarrow> int" where
  "group_end e es = foldl max (end_pos e) (map end_pos es)"

text \<open>
  The loop over the overlap groups. \<^verbatim>\<open>min\<close> and \<^verbatim>\<open>max\<close> of an empty group raise
  \<^verbatim>\<open>ValueError\<close>.
\<close>

fun markup_loop ::
  "string \<Rightarrow> EntitySpan list list \<Rightarrow> int \<Rightarrow> string list \<Rightarrow> py_error + (int \<times> string list)" where
  "markup_loop t [] last_pos result = Inr (last_pos, result)"
| "markup_loop t ([] # groups) last_pos result = Inl ValueError"
| "markup_loop t ((e # es) # groups) last_pos result =
     markup_loop t groups (group_end e es)
       ((if group_start e es > last_pos
         then result @ [html_escape (py_slice t last_pos (group_start e es))]
         else result)
        @ [group_html e es])"

definition markup_text :: "string \<Rightarrow> EntitySpan list \<Rightarrow> py_error + string" where
  "markup_text t entities =
     (if entities = [] then Inr (html_escape t)
      else
        (case markup_loop t (resolve_overlaps entities) 0 [] of
           Inl err \<Rightarrow> Inl err
         | Inr (last_pos, result) \<Rightarrow>
             Inr (concat (if last_pos < int (length t)
                          then result @ [html_escape (py_slice_from t last_pos)]
                          else result))))"

section \<open>Specification of the rendered layout\<close>

text \<open>
  What \<open>markup_text\<close> lays out: the passage text between the groups, and for every group
  its primary span together with the secondaries whose summaries are to be added.
\<close>

datatype segment = Gap string | Group EntitySpan "EntitySpan list"

fun segment_html :: "segment \<Rightarrow> string" where
  "segment_html (Gap s) = html_escape s"
| "segment_html (Group primary secondaries) =
     add_secondary_info (create_entity_html primary True) secondaries"

fun segments :: "string \<Rightarrow> EntitySpan list list \<Rightarrow> int \<Rightarrow> segment list" where
  "segments t [] last_pos =
     (if last_pos < int (length t) then [Gap (py_slice_from t last_pos)] else [])"
| "segments t ([] # groups) last_pos = segments t groups last_pos"
| "segments t ((e # es) # groups) last_pos =
     (if group_start e es > last_pos then [Gap (py_slice t last_pos (group_start e es))] else [])
     @ [Group (longest_from e es) (filter (\<lambda>x. x \<noteq> longest_from e es) (e # es))]
     @ segments t groups (group_end e es)"

text \<open>
  The ground-truth span of an occurrence at \<open>[a, b)\<close> with occurrence index \<open>i\<close>, and the
  markup of a primary span whose text is followed by \<open>suffix\<close>.
\<close>

definition gt_occurrence :: "string \<Rightarrow> string list \<Rightarrow> nat \<Rightarrow> nat \<Rightarrow> int \<Rightarrow> EntitySpan" where
  "gt_occurrence s tys a b i =
     \<lparr>start = int a, end_pos = int b, span_text = s, types = tys,
      source = ground_truth, occurrence_id = i\<rparr>"

definition rendered_with :: "EntitySpan \<Rightarrow> string \<Rightarrow> string" where
  "rendered_with e suffix =
     opening_tag e True @ html_escape (span_text e) @ suffix @ tooltip_html e @ ''</span>''"

text \<open>A left-to-right substring test, equivalent to \<open>py_contains\<close>, for evaluation.\<close>

fun is_prefix :: "string \<Rightarrow> string \<Rightarrow> bool" where
  "is_prefix [] xs = True"
| "is_prefix (a # as) [] = False"
| "is_prefix (a # as) (x # xs) = (if a = x then is_prefix as xs else False)"

fun scan_for :: "string \<Rightarrow> string \<Rightarrow> bool" where
  "scan_for s [] = (s = [])"
| "scan_for s (c # cs) = (if is_prefix s (c # cs) then True else scan_for s cs)"

text \<open>Example inputs.\<close>

definition nested_outer :: EntitySpan where
  "nested_outer =
     \<lparr>start = 0, end_pos = 5, span_text = ''abcde'', types = [''E21 Person''],
      source = ground_truth, occurrence_id = 1\<rparr>"

definition nested_inner :: EntitySpan where
  "nested_inner =
     \<lparr>start = 1, end_pos = 3, span_text = ''bc'', types = [''E53 Place''],
      source = ground_truth, occurrence_id = 1\<rparr>"

definition nested_example :: "EntitySpan list" where
  "nested_example = [nested_outer, nested_inner]"

definition unescaped_type_example :: EntitySpan where
  "unescaped_type_example =
     \<lparr>start = 0, end_pos = 1, span_text = ''x'', types = [''<b>''],
      source = ground_truth, occurrence_id = 1\<rparr>"




section \<open>Specification of the occurrence numbering\<close>

text \<open>
  Positions \<open>[x, x')\<close> and \<open>[y, y')\<close> overlap as the spans at them do; a position is clear
  of a list of occurrences when it neither overlaps nor equals one of them. A segment
  shows the span text \<open>s\<close> when it is a group whose primary has that text.
\<close>

definition pair_overlaps :: "nat \<times> nat \<Rightarrow> nat \<times> nat \<Rightarrow> bool" where
  "pair_overlaps p q = (fst p < snd q \<and> fst q < snd p)"

definition clear_of :: "(nat \<times> nat) list \<Rightarrow> nat \<times> nat \<Rightarrow> bool" where
  "clear_of occs p = list_all (\<lambda>q. p \<noteq> q \<and> \<not> pair_overlaps p q) occs"

definition shows_span :: "string \<Rightarrow> segment \<Rightarrow> bool" where
  "shows_span s seg = (case seg of Gap g \<Rightarrow> False | Group p secs \<Rightarrow> span_text p = s)"

text \<open>The \<^verbatim>\<open>ground_truth\<close> list of the report loop.\<close>

definition ground_truth_spans :: "item \<Rightarrow> EntitySpan list" where
  "ground_truth_spans it = filter (\<lambda>e. source e = ground_truth) (extract_entities it)"

definition two_label_item :: item where
  "two_label_item =
     \<lparr>item_text = ''ab ab ab xy'',
      labels = Some [\<lparr>span = ''xy'', span_types = [''E53 Place'']\<rparr>,
                     \<lparr>span = ''ab'', span_types = [''E21 Person'']\<rparr>],
      mistral_small_3_2_output = None, gpt_4o_mini_output = None\<rparr>"

definition overlapped_item :: item where
  "overlapped_item =
     \<lparr>item_text = ''ab ab xx ab'',
      labels = Some [\<lparr>span = ''ab ab'', span_types = [''E53 Place'']\<rparr>,
                     \<lparr>span = ''ab'', span_types = [''E53 Place'']\<rparr>],
      mistral_small_3_2_output = None, gpt_4o_mini_output = None\<rparr>"

definition overlapped_outer :: EntitySpan where
  "overlapped_outer =
     \<lparr>start = 0, end_pos = 5, span_text = ''ab ab'', types = [''E53 Place''],
      source = ground_truth, occurrence_id = 1\<rparr>"

section \<open>Specification of the visible text\<close>

text \<open>
  The text a browser shows for a markup string, before character references are decoded:
  the characters outside tags (a tag runs from \<^verbatim>\<open><\<close> to the next \<^verbatim>\<open>>\<close>) and outside
  \<^verbatim>\<open>div\<close> elements, which hold the hover detail. The state is whether the reader is inside
  a tag, and how many \<^verbatim>\<open>div\<close> elements are open.
\<close>

fun visible :: "bool \<Rightarrow> nat \<Rightarrow> string \<Rightarrow> string" where
  "visible in_tag depth [] = []"
| "visible True depth (c # cs) =
     (if c = CHR ''>'' then visible False depth cs else visible True depth cs)"
| "visible False depth (c # cs) =
     (if c = CHR ''<''
      then visible True
             (if is_prefix ''div'' cs then depth + 1
              else if is_prefix ''/div'' cs then depth - 1 else depth) cs
      else if depth = 0 then c # visible False depth cs
      else visible False depth cs)"

text \<open>Decoding of the five character references that \<open>html_escape\<close> writes.\<close>

fun html_unescape :: "string \<Rightarrow> string" where
  "html_unescape [] = []"
| "html_unescape (c # cs) =
     (if is_prefix ''&amp;'' (c # cs) then CHR ''&'' # html_unescape (drop 4 cs)
      else if is_prefix ''&lt;'' (c # cs) then CHR ''<'' # html_unescape (drop 3 cs)
      else if is_prefix ''&gt;'' (c # cs) then CHR ''>'' # html_unescape (drop 3 cs)
      else if is_prefix ''&quot;'' (c # cs) then CHR 0x22 # html_unescape (drop 5 cs)
      else if is_prefix ''&#x27;'' (c # cs) then CHR 0x27 # html_unescape (drop 5 cs)
      else c # html_unescape cs)"

definition visible_text :: "string \<Rightarrow> string" where
  "visible_text html = html_unescape (visible False 0 html)"

text \<open>A string without the two tag delimiters.\<close>

definition plain :: "string \<Rightarrow> bool" where
  "plain x = (CHR ''<'' \<notin> set x \<and> CHR ''>'' \<notin> set x)"





text \<open>A string with no tag delimiter, no ampersand and no double quote.\<close>

definition inert :: "string \<Rightarrow> bool" where
  "inert x = (plain x \<and> CHR ''&'' \<notin> set x \<and> CHR 0x22 \<notin> set x)"




text \<open>A span whose type string opens a \<^verbatim>\<open>div\<close> element.\<close>

definition div_type_example :: EntitySpan where
  "div_type_example =
     \<lparr>start = 0, end_pos = 1, span_text = ''a'', types = [''<div>''],
      source = ground_truth, occurrence_id = 1\<rparr>"

section \<open>Properties of the substring search\<close>

lemma matches_at_fits: "i \<le> length t \<Longrightarrow> matches_at t s i \<Longrightarrow> i + length s \<le> length t"
proof -
  assume le: "i \<le> length t" and m: "matches_at t s i"
  from m have "length (take (length s) (drop i t)) = length s" by (simp add: matches_at_def)
  then show ?thesis using le by simp
qed

lemma py_find_None_filter:
  "py_find t s i = None \<Longrightarrow> filter (matches_at t s) [i..<Suc (length t)] = []"
proof (induction t s i rule: py_find.induct)
  case (1 t s i)
  show ?case
  proof (cases "length t < i + length s")
    case True
    have "\<not> matches_at t s j" if "i \<le> j" "j \<le> length t" for j
      using matches_at_fits [of j t s] that True by auto
    then show ?thesis by (auto simp del: upt_Suc simp: filter_empty_conv)
  next
    case False
    with "1.prems" have nm: "take (length s) (drop i t) \<noteq> s" and rec: "py_find t s (Suc i) = None"
      by (auto simp: py_find.simps [of t s i] split: if_splits)
    from "1.IH" False nm rec have "filter (matches_at t s) [Suc i..<Suc (length t)] = []"
      by (simp del: upt_Suc)
    moreover from False have "[i..<Suc (length t)] = i # [Suc i..<Suc (length t)]"
      by (simp add: upt_conv_Cons)
    moreover from nm have "\<not> matches_at t s i" by (simp add: matches_at_def)
    ultimately show ?thesis by (simp del: upt_Suc)
  qed
qed

lemma py_find_Some_filter:
  "py_find t s i = Some p \<Longrightarrow>
     filter (matches_at t s) [i..<Suc (length t)] = p # filter (matches_at t s) [Suc p..<Suc (length t)]"
proof (induction t s i rule: py_find.induct)
  case (1 t s i)
  from "1.prems" have fits: "\<not> length t < i + length s"
    by (auto simp: py_find.simps [of t s i] split: if_splits)
  then have upt: "[i..<Suc (length t)] = i # [Suc i..<Suc (length t)]"
    by (simp add: upt_conv_Cons)
  show ?case
  proof (cases "take (length s) (drop i t) = s")
    case True
    with fits "1.prems" have "p = i" by (simp add: py_find.simps [of t s i])
    moreover from True have "matches_at t s i" by (simp add: matches_at_def)
    ultimately show ?thesis using upt by (simp del: upt_Suc)
  next
    case False
    with fits "1.prems" have "py_find t s (Suc i) = Some p"
      by (simp add: py_find.simps [of t s i])
    with "1.IH" fits False
    have "filter (matches_at t s) [Suc i..<Suc (length t)] = p # filter (matches_at t s) [Suc p..<Suc (length t)]"
      by (simp del: upt_Suc)
    moreover from False have "\<not> matches_at t s i" by (simp add: matches_at_def)
    ultimately show ?thesis using upt by (simp del: upt_Suc)
  qed
qed

lemma find_loop_filter:
  "find_loop t s start_idx occ =
     occ @ map (\<lambda>i. (i, i + length s)) (filter (matches_at t s) [start_idx..<Suc (length t)])"
proof (induction t s start_idx occ rule: find_loop.induct)
  case (1 t s start_idx occ)
  show ?case
  proof (cases "py_find t s start_idx")
    case None
    then show ?thesis
      by (simp del: upt_Suc add: find_loop.simps [of t s start_idx occ] py_find_None_filter)
  next
    case (Some pos)
    with "1.IH" show ?thesis
      by (simp del: upt_Suc add: find_loop.simps [of t s start_idx occ] py_find_Some_filter)
  qed
qed

lemma find_all_occurrences_filter:
  "find_all_occurrences t s =
     map (\<lambda>i. (i, i + length s)) (filter (matches_at t s) [0..<Suc (length t)])"
  by (simp del: upt_Suc add: find_all_occurrences_def find_loop_filter)

lemma find_all_occurrences_overlapping:
  "find_all_occurrences ''aaa'' ''aa'' = [(0, 2), (1, 3)]"
  by code_simp

text \<open>
  Claim C4. For every text \<open>T\<close> and span string \<open>S\<close>, \<open>find_all_occurrences T S\<close> is the
  list of the pairs \<open>(i, i + len S)\<close> for exactly the start indices \<open>i\<close> of \<open>T\<close>
  (\<open>0 \<le> i \<le> len T\<close>) with \<open>T[i:i+len S] = S\<close>, overlapping occurrences included, in
  strictly ascending order of \<open>i\<close>. For a non-empty \<open>S\<close> no other index satisfies the
  condition; for the empty \<open>S\<close> the slice condition holds at every number, and the indices
  returned are the positions \<open>0, \<dots>, len T\<close> of \<open>T\<close>.
\<close>

theorem find_all_occurrences_exact:
  "find_all_occurrences T S =
     map (\<lambda>i. (i, i + length S)) (filter (matches_at T S) [0..<Suc (length T)])
   \<and> sorted_wrt (<) (map fst (find_all_occurrences T S))
   \<and> set (find_all_occurrences T S) = {(i, i + length S) | i. i \<le> length T \<and> matches_at T S i}
   \<and> (S = [] \<or> set (find_all_occurrences T S) = {(i, i + length S) | i. matches_at T S i})"
proof -
  have eq: "find_all_occurrences T S =
     map (\<lambda>i. (i, i + length S)) (filter (matches_at T S) [0..<Suc (length T)])"
    by (rule find_all_occurrences_filter)
  have "map fst (find_all_occurrences T S) = filter (matches_at T S) [0..<Suc (length T)]"
    by (simp del: upt_Suc add: eq comp_def)
  then have asc: "sorted_wrt (<) (map fst (find_all_occurrences T S))"
    by (simp del: upt_Suc add: sorted_wrt_filter)
  have st: "set (find_all_occurrences T S) = {(i, i + length S) | i. i \<le> length T \<and> matches_at T S i}"
    unfolding eq by (auto simp del: upt_Suc)
  have "i \<le> length T" if "S \<noteq> []" "matches_at T S i" for i
  proof (rule ccontr)
    assume "\<not> i \<le> length T"
    then have "take (length S) (drop i T) = []" by simp
    with that show False by (simp add: matches_at_def)
  qed
  with st have anywhere:
    "S = [] \<or> set (find_all_occurrences T S) = {(i, i + length S) | i. matches_at T S i}"
    by auto
  from eq asc st anywhere show ?thesis by blast
qed

section \<open>Overlap groups\<close>

lemma overlaps_sym: "overlaps a b = overlaps b a"
  by (auto simp: overlaps_def)

lemma overlaps_any_iff: "overlaps_any e g = (\<exists>x\<in>set g. overlaps e x)"
  by (induction g) auto

lemma linked_left: "linked g a b \<Longrightarrow> a \<in> set g"
  by (induction rule: linked.induct) auto

lemma linked_right: "linked g a b \<Longrightarrow> b \<in> set g"
  by (induction rule: linked.induct) auto

lemma linked_trans: "linked g b c \<Longrightarrow> linked g a b \<Longrightarrow> linked g a c"
  by (induction rule: linked.induct) (auto intro: linked_step)

lemma linked_single: "a \<in> set g \<Longrightarrow> b \<in> set g \<Longrightarrow> overlaps a b \<Longrightarrow> linked g a b"
  by (blast intro: linked_refl linked_step)

lemma linked_sym: "linked g a b \<Longrightarrow> linked g b a"
proof (induction rule: linked.induct)
  case (linked_refl a)
  then show ?case by (rule linked.linked_refl)
next
  case (linked_step a b c)
  from linked_step.hyps have "b \<in> set g" by (blast dest: linked_right)
  with linked_step.hyps have "linked g c b"
    by (simp add: linked_single overlaps_sym [of c b])
  with linked_step.IH show ?case by (blast intro: linked_trans)
qed

lemma linked_mono: "linked g a b \<Longrightarrow> set g \<subseteq> set h \<Longrightarrow> linked h a b"
  by (induction rule: linked.induct) (auto intro: linked.intros)

lemma chain_connected_single: "chain_connected [e]"
  by (simp add: chain_connected_def linked_refl)

lemma chain_connected_snoc:
  assumes "chain_connected g" and "overlaps_any e g"
  shows "chain_connected (g @ [e])"
proof -
  from assms(2) obtain x where x: "x \<in> set g" "overlaps e x"
    by (auto simp: overlaps_any_iff)
  have old: "linked (g @ [e]) a b" if "a \<in> set g" "b \<in> set g" for a b
  proof -
    from assms(1) that have "linked g a b" by (simp add: chain_connected_def)
    then show ?thesis by (rule linked_mono) auto
  qed
  have ex: "linked (g @ [e]) e x"
    using x by (simp add: linked_single)
  have e_to: "linked (g @ [e]) e b" if "b \<in> set g" for b
    using ex old [OF x(1) that] by (blast intro: linked_trans)
  have to_e: "linked (g @ [e]) a e" if "a \<in> set g" for a
    using e_to [OF that] by (rule linked_sym)
  have ee: "linked (g @ [e]) e e" by (simp add: linked_refl)
  show ?thesis
    unfolding chain_connected_def using old e_to to_e ee by auto
qed

lemma resolve_loop_concat:
  "concat (resolve_loop rest groups cur) = concat groups @ cur @ rest"
  by (induction rest arbitrary: groups cur) auto

lemma resolve_loop_nonempty:
  "[] \<notin> set groups \<Longrightarrow> cur \<noteq> [] \<Longrightarrow> [] \<notin> set (resolve_loop rest groups cur)"
  by (induction rest arbitrary: groups cur) auto

lemma resolve_loop_connected:
  "\<forall>g\<in>set groups. chain_connected g \<Longrightarrow> chain_connected cur \<Longrightarrow>
     \<forall>g\<in>set (resolve_loop rest groups cur). chain_connected g"
proof (induction rest arbitrary: groups cur)
  case Nil
  then show ?case by simp
next
  case (Cons e rest)
  show ?case
  proof (cases "overlaps_any e cur")
    case True
    with Cons.prems have "chain_connected (cur @ [e])" by (simp add: chain_connected_snoc)
    with Cons.IH [of groups "cur @ [e]"] Cons.prems(1) True show ?thesis by simp
  next
    case False
    from Cons.prems have "\<forall>g\<in>set (groups @ [cur]). chain_connected g" by simp
    with Cons.IH [of "groups @ [cur]" "[e]"] False show ?thesis
      by (simp add: chain_connected_single)
  qed
qed

lemma resolve_loop_before:
  assumes "sorted_wrt before groups"
    and "\<forall>g\<in>set groups. before g (cur @ rest)"
    and "\<forall>c\<in>set cur. \<forall>x\<in>set rest. start c \<le> start x"
    and "sorted (map start rest)"
    and "\<forall>x\<in>set rest. start x < end_pos x"
  shows "sorted_wrt before (resolve_loop rest groups cur)"
  using assms
proof (induction rest arbitrary: groups cur)
  case Nil
  then show ?case by (simp add: sorted_wrt_append)
next
  case (Cons e rest)
  show ?case
  proof (cases "overlaps_any e cur")
    case True
    have "sorted_wrt before (resolve_loop rest groups (cur @ [e]))"
    proof (rule Cons.IH)
      show "sorted_wrt before groups" by (rule Cons.prems(1))
      show "\<forall>g\<in>set groups. before g ((cur @ [e]) @ rest)" using Cons.prems(2) by simp
      show "\<forall>c\<in>set (cur @ [e]). \<forall>x\<in>set rest. start c \<le> start x"
        using Cons.prems(3,4) by auto
      show "sorted (map start rest)" using Cons.prems(4) by simp
      show "\<forall>x\<in>set rest. start x < end_pos x" using Cons.prems(5) by simp
    qed
    with True show ?thesis by simp
  next
    case False
    have cur_e: "end_pos c \<le> start x" if "c \<in> set cur" "x \<in> set (e # rest)" for c x
    proof -
      from False that(1) have "\<not> overlaps e c" by (auto simp: overlaps_any_iff)
      moreover from Cons.prems(3) that(1) have "start c \<le> start e" by simp
      moreover from Cons.prems(5) have "start e < end_pos e" by simp
      ultimately have "end_pos c \<le> start e" by (auto simp: overlaps_def)
      moreover from Cons.prems(4) that(2) have "start e \<le> start x" by auto
      ultimately show ?thesis by simp
    qed
    have "sorted_wrt before (resolve_loop rest (groups @ [cur]) [e])"
    proof (rule Cons.IH)
      have "before g cur" if "g \<in> set groups" for g
        using Cons.prems(2) that by (auto simp: before_def)
      then show "sorted_wrt before (groups @ [cur])"
        using Cons.prems(1) by (simp add: sorted_wrt_append)
      show "\<forall>g\<in>set (groups @ [cur]). before g ([e] @ rest)"
        using Cons.prems(2) cur_e by (auto simp: before_def)
      show "\<forall>c\<in>set [e]. \<forall>x\<in>set rest. start c \<le> start x" using Cons.prems(4) by auto
      show "sorted (map start rest)" using Cons.prems(4) by simp
      show "\<forall>x\<in>set rest. start x < end_pos x" using Cons.prems(5) by simp
    qed
    with False show ?thesis by simp
  qed
qed

lemma sorted_key_start: "sorted (map sort_key_of es) \<Longrightarrow> sorted (map start es)"
proof -
  assume "sorted (map sort_key_of es)"
  then have "sorted_wrt (\<lambda>x y. sort_key_of x \<le> sort_key_of y) es" by (simp add: sorted_map)
  then have "sorted_wrt (\<lambda>x y. start x \<le> start y) es"
    by (rule sorted_wrt_mono_rel [rotated]) (auto simp: sort_key_of_def less_eq_prod_def)
  then show ?thesis by (simp add: sorted_map)
qed

lemma before_no_overlap: "before g h \<Longrightarrow> a \<in> set g \<Longrightarrow> b \<in> set h \<Longrightarrow> \<not> overlaps a b \<and> \<not> overlaps b a"
proof -
  assume "before g h" "a \<in> set g" "b \<in> set h"
  then have "end_pos a \<le> start b" by (simp add: before_def)
  then show ?thesis by (simp add: overlaps_def)
qed

lemma sorted_before_no_cross: "sorted_wrt before gs \<Longrightarrow> no_cross_overlap gs"
proof -
  assume s: "sorted_wrt before gs"
  have "\<not> overlaps a b" if "i < length gs" "j < length gs" "i \<noteq> j"
     "a \<in> set (gs ! i)" "b \<in> set (gs ! j)" for i j a b
  proof (cases "i < j")
    case True
    with s that have "before (gs ! i) (gs ! j)" by (simp add: sorted_wrt_nth_less)
    with that show ?thesis by (blast dest: before_no_overlap)
  next
    case False
    with that have "j < i" by simp
    with s that have "before (gs ! j) (gs ! i)" by (simp add: sorted_wrt_nth_less)
    with that show ?thesis by (blast dest: before_no_overlap)
  qed
  then show ?thesis unfolding no_cross_overlap_def by blast
qed

text \<open>
  Claim C5, amended. For every span list sorted by start ascending and end descending
  in which every span has \<open>start < end\<close>, \<open>resolve_overlaps\<close> partitions the list into
  non-empty groups such that any two spans of one group are linked by a chain of
  pairwise overlapping spans of that group, and no span of one group overlaps a span of
  another group.
\<close>

theorem resolve_overlaps_partition:
  assumes "sorted (map sort_key_of es)" and "\<forall>e\<in>set es. start e < end_pos e"
  shows "concat (resolve_overlaps es) = es
       \<and> [] \<notin> set (resolve_overlaps es)
       \<and> (\<forall>g\<in>set (resolve_overlaps es). chain_connected g)
       \<and> no_cross_overlap (resolve_overlaps es)"
proof (cases es)
  case Nil
  then show ?thesis by (simp add: resolve_overlaps_def no_cross_overlap_def)
next
  case (Cons e rest)
  then have ro: "resolve_overlaps es = resolve_loop rest [] [e]"
    by (simp add: resolve_overlaps_def)
  from assms(1) have st: "sorted (map start es)" by (rule sorted_key_start)
  have c1: "concat (resolve_overlaps es) = es"
    unfolding ro by (simp add: resolve_loop_concat Cons)
  have c2: "[] \<notin> set (resolve_overlaps es)"
    unfolding ro by (simp add: resolve_loop_nonempty)
  have c3: "\<forall>g\<in>set (resolve_overlaps es). chain_connected g"
    unfolding ro by (rule resolve_loop_connected) (simp_all add: chain_connected_single)
  have "sorted_wrt before (resolve_loop rest [] [e])"
  proof (rule resolve_loop_before)
    show "sorted_wrt before []" by simp
    show "\<forall>g\<in>set []. before g ([e] @ rest)" by simp
    show "\<forall>c\<in>set [e]. \<forall>x\<in>set rest. start c \<le> start x" using st Cons by auto
    show "sorted (map start rest)" using st Cons by simp
    show "\<forall>x\<in>set rest. start x < end_pos x" using assms(2) Cons by simp
  qed
  then have c4: "no_cross_overlap (resolve_overlaps es)"
    unfolding ro by (rule sorted_before_no_cross)
  from c1 c2 c3 c4 show ?thesis by blast
qed

theorem resolve_overlaps_partition_witness:
  "sorted (map sort_key_of overlap_example)
   \<and> list_all (\<lambda>e. start e < end_pos e) overlap_example
   \<and> concat (resolve_overlaps overlap_example) = overlap_example
   \<and> length (resolve_overlaps overlap_example) = 2
   \<and> list_all chain_connected (resolve_overlaps overlap_example)
   \<and> no_cross_overlap (resolve_overlaps overlap_example)"
proof -
  have h1: "sorted (map sort_key_of overlap_example)"
    by (simp add: overlap_example_def example_span_def sort_key_of_def less_eq_prod_def)
  have h2: "\<forall>e\<in>set overlap_example. start e < end_pos e"
    by (simp add: overlap_example_def example_span_def)
  have len: "length (resolve_overlaps overlap_example) = 2"
    by (simp add: overlap_example_def example_span_def resolve_overlaps_def overlaps_def)
  from resolve_overlaps_partition [OF h1 h2] h1 h2 len show ?thesis
    by (simp add: list_all_iff)
qed

text \<open>
  Sortedness alone is not enough: a span with \<open>start = end\<close> closes the group of a longer
  span that a later span still overlaps.
\<close>

theorem resolve_overlaps_sorted_only_counterexample:
  "sorted (map sort_key_of empty_span_example)
   \<and> resolve_overlaps empty_span_example =
       [[example_span 0 5 ''abcde''], [example_span 0 0 ''''], [example_span 1 3 ''bc'']]
   \<and> overlaps (example_span 1 3 ''bc'') (example_span 0 5 ''abcde'')
   \<and> \<not> no_cross_overlap (resolve_overlaps empty_span_example)"
proof -
  have h1: "sorted (map sort_key_of empty_span_example)"
    by (simp add: empty_span_example_def example_span_def sort_key_of_def less_eq_prod_def)
  have gs: "resolve_overlaps empty_span_example =
       [[example_span 0 5 ''abcde''], [example_span 0 0 ''''], [example_span 1 3 ''bc'']]"
    by (simp add: empty_span_example_def example_span_def resolve_overlaps_def overlaps_def)
  have ov: "overlaps (example_span 1 3 ''bc'') (example_span 0 5 ''abcde'')"
    by (simp add: example_span_def overlaps_def)
  have "\<not> no_cross_overlap (resolve_overlaps empty_span_example)"
  proof
    assume "no_cross_overlap (resolve_overlaps empty_span_example)"
    then have "\<not> overlaps (example_span 1 3 ''bc'') (example_span 0 5 ''abcde'')"
      using no_cross_overlap_def [of "resolve_overlaps empty_span_example", THEN iffD1,
          rule_format, of 2 0 "example_span 1 3 ''bc''" "example_span 0 5 ''abcde''"]
      by (simp add: gs)
    with ov show False by simp
  qed
  with h1 gs ov show ?thesis by blast
qed

text \<open>The extractor produces such a list from a record with an empty span string.\<close>

lemma extract_entities_empty_span_example:
  "take 3 (extract_entities
      \<lparr>item_text = ''abcde'',
       labels = Some [\<lparr>span = ''abcde'', span_types = [''E21 Person'']\<rparr>,
                      \<lparr>span = '''', span_types = [''E21 Person'']\<rparr>,
                      \<lparr>span = ''bc'', span_types = [''E21 Person'']\<rparr>],
       mistral_small_3_2_output = None, gpt_4o_mini_output = None\<rparr>)
   = empty_span_example"
  by code_simp

section \<open>Extracted spans\<close>

lemma slice_index_nat: "k \<le> n \<Longrightarrow> slice_index n (int k) = k"
  by (simp add: slice_index_def)

lemma py_slice_nat:
  assumes "s + n \<le> length t"
  shows "py_slice t (int s) (int (s + n)) = take n (drop s t)"
proof -
  from assms have "slice_index (length t) (int s) = s"
    by (simp add: slice_index_nat)
  moreover from assms have "slice_index (length t) (int (s + n)) = s + n"
    by (rule slice_index_nat)
  ultimately show ?thesis by (simp only: py_slice_def Let_def) simp
qed

lemma find_all_occurrences_member:
  assumes "(s, e) \<in> set (find_all_occurrences t sp)"
  shows "e = s + length sp \<and> s + length sp \<le> length t \<and> take (length sp) (drop s t) = sp"
proof -
  from assms have "e = s + length sp" "s \<le> length t" "matches_at t sp s"
    by (auto simp del: upt_Suc simp: find_all_occurrences_filter)
  then show ?thesis using matches_at_fits [of s t sp] by (simp add: matches_at_def)
qed

lemma add_occurrences_entities:
  "set (snd (add_occurrences sp tys src occ st)) \<subseteq>
     set (snd st) \<union>
     {e. \<exists>s f. (s, f) \<in> set occ \<and> start e = int s \<and> end_pos e = int f \<and> span_text e = sp}"
proof (induction occ arbitrary: st)
  case Nil
  then show ?case by simp
next
  case (Cons p occ)
  obtain s f where p: "p = (s, f)" by (cases p)
  obtain c es where st: "st = (c, es)" by (cases st)
  show ?case
    unfolding p st using Cons.IH by (fastforce simp: Let_def)
qed

lemma add_occurrences_well_placed:
  assumes "\<forall>e\<in>set (snd st). well_placed t e"
  shows "\<forall>e\<in>set (snd (add_occurrences sp tys src (find_all_occurrences t sp) st)). well_placed t e"
proof
  fix e
  assume "e \<in> set (snd (add_occurrences sp tys src (find_all_occurrences t sp) st))"
  with add_occurrences_entities [of sp tys src "find_all_occurrences t sp" st]
  consider "e \<in> set (snd st)"
    | s f where "(s, f) \<in> set (find_all_occurrences t sp)" "start e = int s"
        "end_pos e = int f" "span_text e = sp"
    by blast
  then show "well_placed t e"
  proof cases
    case 1
    with assms show ?thesis by simp
  next
    case 2
    from find_all_occurrences_member [OF 2(1)]
    have f: "f = s + length sp" and fits: "s + length sp \<le> length t"
      and m: "take (length sp) (drop s t) = sp" by simp_all
    from fits m have "py_slice t (int s) (int (s + length sp)) = sp"
      by (simp only: py_slice_nat)
    with 2 f fits show ?thesis by (auto simp: well_placed_def)
  qed
qed

lemma add_annotations_well_placed:
  "\<forall>e\<in>set (snd st). well_placed t e \<Longrightarrow>
     \<forall>e\<in>set (snd (add_annotations t src anns st)). well_placed t e"
proof (induction anns arbitrary: st)
  case Nil
  then show ?case by simp
next
  case (Cons a anns)
  from Cons.prems have "\<forall>e\<in>set (snd (add_occurrences (span a) (span_types a) src
      (find_all_occurrences t (span a)) st)). well_placed t e"
    by (rule add_occurrences_well_placed)
  then show ?case using Cons.IH by simp
qed

lemma extract_unsorted_well_placed:
  "\<forall>e\<in>set (extract_unsorted it). well_placed (item_text it) e"
proof -
  let ?t = "item_text it"
  let ?s0 = "add_annotations ?t ground_truth (get_list (labels it)) (\<lambda>_. 0, [])"
  let ?s1 = "add_annotations ?t mistral (get_list (mistral_small_3_2_output it)) (\<lambda>_. 0, snd ?s0)"
  let ?s2 = "add_annotations ?t gpt4 (get_list (gpt_4o_mini_output it)) (\<lambda>_. 0, snd ?s1)"
  have "\<forall>e\<in>set (snd ?s0). well_placed ?t e"
    by (rule add_annotations_well_placed) simp
  then have "\<forall>e\<in>set (snd ?s1). well_placed ?t e"
    by (intro add_annotations_well_placed) simp
  then have "\<forall>e\<in>set (snd ?s2). well_placed ?t e"
    by (intro add_annotations_well_placed) simp
  moreover have "extract_unsorted it = snd ?s2"
    by (simp add: extract_unsorted_def Let_def split: prod.splits)
  ultimately show ?thesis by simp
qed

text \<open>
  Claim C3, amended. Every span produced by \<open>extract_entities\<close> for a record satisfies
  \<open>start \<le> end\<close>, with \<open>start < end\<close> whenever its span string is non-empty, and its text
  equals the passage sliced at \<open>[start, end)\<close>.
\<close>

theorem extract_entities_spans:
  assumes "e \<in> set (extract_entities it)"
  shows "start e \<le> end_pos e
       \<and> (span_text e \<noteq> [] \<longrightarrow> start e < end_pos e)
       \<and> span_text e = py_slice (item_text it) (start e) (end_pos e)"
proof -
  from assms have "e \<in> set (extract_unsorted it)" by (simp add: extract_entities_def)
  with extract_unsorted_well_placed have "well_placed (item_text it) e" by blast
  then show ?thesis by (auto simp: well_placed_def)
qed

lemma extract_entities_empty_span:
  "extract_entities empty_span_item =
     [\<lparr>start = 0, end_pos = 0, span_text = '''', types = [''E21 Person''],
       source = ground_truth, occurrence_id = 1\<rparr>,
      \<lparr>start = 1, end_pos = 1, span_text = '''', types = [''E21 Person''],
       source = ground_truth, occurrence_id = 2\<rparr>,
      \<lparr>start = 2, end_pos = 2, span_text = '''', types = [''E21 Person''],
       source = ground_truth, occurrence_id = 3\<rparr>]"
  by code_simp

text \<open>
  For an empty span string the extractor emits a span with \<open>start = end\<close> at every
  position of the passage.
\<close>

theorem extract_entities_empty_span_counterexample:
  "\<not> (\<forall>e\<in>set (extract_entities empty_span_item). start e < end_pos e)"
  by (simp add: extract_entities_empty_span)

lemma extract_entities_repeated:
  "extract_entities repeated_item =
     [\<lparr>start = 0, end_pos = 2, span_text = ''ab'', types = [''E21 Person''],
       source = ground_truth, occurrence_id = 1\<rparr>,
      \<lparr>start = 3, end_pos = 5, span_text = ''ab'', types = [''E21 Person''],
       source = ground_truth, occurrence_id = 2\<rparr>,
      \<lparr>start = 6, end_pos = 8, span_text = ''ab'', types = [''E21 Person''],
       source = ground_truth, occurrence_id = 3\<rparr>]"
  by code_simp

theorem extract_entities_spans_witness:
  "list_all (\<lambda>e. start e \<le> end_pos e \<and> start e < end_pos e
       \<and> span_text e = py_slice (item_text repeated_item) (start e) (end_pos e))
     (extract_entities repeated_item)"
proof -
  have "\<forall>e\<in>set (extract_entities repeated_item). start e \<le> end_pos e \<and> start e < end_pos e
       \<and> span_text e = py_slice (item_text repeated_item) (start e) (end_pos e)"
  proof
    fix e
    assume m: "e \<in> set (extract_entities repeated_item)"
    then have "span_text e \<noteq> []" by (auto simp: extract_entities_repeated)
    with extract_entities_spans [OF m] show "start e \<le> end_pos e \<and> start e < end_pos e
       \<and> span_text e = py_slice (item_text repeated_item) (start e) (end_pos e)" by simp
  qed
  then show ?thesis by (simp add: list_all_iff)
qed

section \<open>Properties of the comparison metrics\<close>

lemma finite_span_keys [simp]: "finite (span_keys es)"
  by (simp add: span_keys_def)

lemma finite_positions [simp]: "finite (positions es)"
  by (simp add: positions_def)

lemma compare_annotations_bounded: "bounded_exact (compare_annotations gt m)"
  by (simp add: bounded_exact_def compare_annotations_def Let_def card_mono)

lemma accumulate_bounded:
  "bounded_exact t \<Longrightarrow> bounded_exact c \<Longrightarrow> bounded_exact (accumulate t c)"
  by (simp add: bounded_exact_def accumulate_def)

lemma process_item_bounded:
  "bounded_exact (fst t) \<Longrightarrow> bounded_exact (snd t) \<Longrightarrow>
     bounded_exact (fst (process_item t it)) \<and> bounded_exact (snd (process_item t it))"
  by (simp add: process_item_def Let_def accumulate_bounded compare_annotations_bounded)

lemma foldl_process_item_bounded:
  "bounded_exact (fst t) \<Longrightarrow> bounded_exact (snd t) \<Longrightarrow>
     bounded_exact (fst (foldl process_item t items)) \<and> bounded_exact (snd (foldl process_item t items))"
proof (induction items arbitrary: t)
  case Nil
  then show ?case by simp
next
  case (Cons it items)
  from process_item_bounded [OF Cons.prems, of it] show ?case
    by (simp add: Cons.IH)
qed

lemma total_comparisons_bounded:
  "bounded_exact (fst (total_comparisons items)) \<and> bounded_exact (snd (total_comparisons items))"
  unfolding total_comparisons_def
  by (rule foldl_process_item_bounded) (simp_all add: bounded_exact_def empty_comparison_def)

lemma bounded_metrics: "bounded_exact c \<Longrightarrow> metrics_as_specified c"
proof -
  assume b: "bounded_exact c"
  then have em: "exact_matches c \<le> total_model c" and eg: "exact_matches c \<le> total_ground_truth c"
    by (simp_all add: bounded_exact_def)
  have p: "precision c = ratio_or_zero (exact_matches c) (total_model c)"
    using em by (cases "total_model c = 0") (simp_all add: precision_def ratio_or_zero_def max_def)
  have r: "recall c = ratio_or_zero (exact_matches c) (total_ground_truth c)"
    using eg by (cases "total_ground_truth c = 0") (simp_all add: recall_def ratio_or_zero_def max_def)
  have p0: "0 \<le> precision c" by (simp add: precision_def)
  have r0: "0 \<le> recall c" by (simp add: recall_def)
  have p1: "precision c \<le> 1"
    using em by (simp add: precision_def divide_le_eq_1 max_def)
  have r1: "recall c \<le> 1"
    using eg by (simp add: recall_def divide_le_eq_1 max_def)
  from p r p0 p1 r0 r1 show ?thesis by (simp add: metrics_as_specified_def)
qed

text \<open>
  Claim C6. For the aggregate \<open>ComparisonResult\<close> of either model over any list of
  records, the reported precision is \<open>exact_matches\<close> divided by the total of
  model-predicted spans and the reported recall is \<open>exact_matches\<close> divided by the total of
  ground-truth spans, each 0 when that total is 0: the code's
  \<open>exact_matches / max(total, 1)\<close> equals that value, and both quotients lie in \<open>[0, 1]\<close>.
\<close>

theorem aggregate_precision_recall:
  "metrics_as_specified (fst (total_comparisons items))
   \<and> metrics_as_specified (snd (total_comparisons items))"
  using total_comparisons_bounded [of items] by (simp add: bounded_metrics)

lemma exact_positions_subset: "exact_positions gt m \<subseteq> positions gt \<inter> positions m"
  by (auto simp: exact_positions_def span_keys_def positions_def)

text \<open>
  Claim C7. \<open>compare_annotations\<close> sets \<open>partial_matches\<close> to the size of the position
  intersection of the two sources minus the number of positions of exact matches; the
  exact-match positions are a subset of the position intersection.
\<close>

theorem partial_matches_difference:
  "int (partial_matches (compare_annotations gt m)) =
     int (card (positions gt \<inter> positions m)) - int (card (exact_positions gt m))
   \<and> exact_positions gt m \<subseteq> positions gt \<inter> positions m"
proof -
  have sub: "exact_positions gt m \<subseteq> positions gt \<inter> positions m"
    by (rule exact_positions_subset)
  have fin: "finite (exact_positions gt m)" by (simp add: exact_positions_def)
  have "partial_matches (compare_annotations gt m) =
      card ((positions gt \<inter> positions m) - exact_positions gt m)"
    by (simp add: compare_annotations_def Let_def exact_positions_def)
  also have "\<dots> = card (positions gt \<inter> positions m) - card (exact_positions gt m)"
    using fin sub by (rule card_Diff_subset)
  finally have "partial_matches (compare_annotations gt m) =
      card (positions gt \<inter> positions m) - card (exact_positions gt m)" .
  moreover have "card (exact_positions gt m) \<le> card (positions gt \<inter> positions m)"
    using sub by (simp add: card_mono)
  ultimately show ?thesis using sub by simp
qed

text \<open>
  Claim C8. When the ground truth yields exactly the span set \<open>{(0, 5, ("A"))}\<close> and the
  model exactly \<open>{(0, 5, ("A")), (10, 15, ("B"))}\<close>, \<open>compare_annotations\<close> returns
  \<open>exact_matches = 1\<close>, \<open>model_only = 1\<close>, \<open>ground_truth_only = 0\<close>, and the totals of a
  report over that one record give precision 50% and recall 100%.
\<close>

theorem compare_annotations_example:
  assumes "span_keys gt = {(0, 5, [''A''])}"
    and "span_keys m = {(0, 5, [''A'']), (10, 15, [''B''])}"
  shows "exact_matches (compare_annotations gt m) = 1
       \<and> model_only (compare_annotations gt m) = 1
       \<and> ground_truth_only (compare_annotations gt m) = 0
       \<and> precision (accumulate empty_comparison (compare_annotations gt m)) = 1 / 2
       \<and> recall (accumulate empty_comparison (compare_annotations gt m)) = 1"
proof -
  have i: "span_keys gt \<inter> span_keys m = {(0, 5, [''A''])}"
    unfolding assms by auto
  have d1: "span_keys m - span_keys gt = {(10, 15, [''B''])}"
    unfolding assms by auto
  have d2: "span_keys gt - span_keys m = {}"
    unfolding assms by auto
  have c2: "card (span_keys m) = 2" unfolding assms by simp
  have c1: "card (span_keys gt) = 1" unfolding assms by simp
  show ?thesis
    by (simp add: compare_annotations_def Let_def i d1 d2 c1 c2 precision_def recall_def
        accumulate_def empty_comparison_def)
qed

theorem compare_annotations_example_witness:
  "span_keys metrics_gt = {(0, 5, [''A''])}
   \<and> span_keys metrics_model = {(0, 5, [''A'']), (10, 15, [''B''])}
   \<and> exact_matches (compare_annotations metrics_gt metrics_model) = 1
   \<and> model_only (compare_annotations metrics_gt metrics_model) = 1
   \<and> ground_truth_only (compare_annotations metrics_gt metrics_model) = 0
   \<and> precision (accumulate empty_comparison (compare_annotations metrics_gt metrics_model)) = 1 / 2
   \<and> recall (accumulate empty_comparison (compare_annotations metrics_gt metrics_model)) = 1"
proof -
  have h1: "span_keys metrics_gt = {(0, 5, [''A''])}"
    by (simp add: span_keys_def metrics_gt_def)
  have h2: "span_keys metrics_model = {(0, 5, [''A'']), (10, 15, [''B''])}"
    by (simp add: span_keys_def metrics_model_def)
  from compare_annotations_example [OF h1 h2] h1 h2 show ?thesis by simp
qed

section \<open>Substring tests\<close>

lemma is_prefix_take: "is_prefix s xs = (take (length s) xs = s)"
  by (induction s xs rule: is_prefix.induct) auto

lemma scan_for_iff: "scan_for s xs = (\<exists>k\<le>length xs. take (length s) (drop k xs) = s)"
proof (induction xs)
  case Nil
  then show ?case by auto
next
  case (Cons c cs)
  have "(\<exists>k\<le>length (c # cs). take (length s) (drop k (c # cs)) = s) =
        (take (length s) (c # cs) = s \<or> (\<exists>k\<le>length cs. take (length s) (drop k cs) = s))"
  proof
    assume "\<exists>k\<le>length (c # cs). take (length s) (drop k (c # cs)) = s"
    then obtain k where k: "k \<le> length (c # cs)" "take (length s) (drop k (c # cs)) = s" by blast
    show "take (length s) (c # cs) = s \<or> (\<exists>k\<le>length cs. take (length s) (drop k cs) = s)"
    proof (cases k)
      case 0
      with k show ?thesis by simp
    next
      case (Suc j)
      with k have "j \<le> length cs" "take (length s) (drop j cs) = s" by simp_all
      then show ?thesis by blast
    qed
  next
    assume "take (length s) (c # cs) = s \<or> (\<exists>k\<le>length cs. take (length s) (drop k cs) = s)"
    then show "\<exists>k\<le>length (c # cs). take (length s) (drop k (c # cs)) = s"
    proof
      assume "take (length s) (c # cs) = s"
      then have "take (length s) (drop 0 (c # cs)) = s" by simp
      then show ?thesis by blast
    next
      assume "\<exists>k\<le>length cs. take (length s) (drop k cs) = s"
      then obtain k where "k \<le> length cs" "take (length s) (drop k cs) = s" by blast
      then have "Suc k \<le> length (c # cs)" "take (length s) (drop (Suc k) (c # cs)) = s" by simp_all
      then show ?thesis by blast
    qed
  qed
  with Cons.IH show ?case by (auto simp: is_prefix_take)
qed

lemma py_find_None_iff:
  "(py_find t s 0 = None) = (filter (matches_at t s) [0..<Suc (length t)] = [])"
proof (cases "py_find t s 0")
  case None
  then show ?thesis by (simp del: upt_Suc add: py_find_None_filter)
next
  case (Some p)
  then show ?thesis by (simp del: upt_Suc add: py_find_Some_filter)
qed

lemma py_contains_scan: "py_contains t s = scan_for s t"
proof -
  have "py_contains t s = (\<exists>k\<le>length t. matches_at t s k)"
    unfolding py_contains_def py_find_None_iff
    by (auto simp del: upt_Suc simp: filter_empty_conv less_Suc_eq_le)
  then show ?thesis by (simp add: scan_for_iff matches_at_def)
qed

lemma replace_scan_absent:
  "\<not> scan_for old s \<Longrightarrow> old \<noteq> [] \<Longrightarrow> replace_scan old new s = s"
  by (induction s) (auto simp: is_prefix_take split: if_splits)

lemma py_replace_absent:
  "\<not> py_contains s old \<Longrightarrow> old \<noteq> [] \<Longrightarrow> py_replace s old new = s"
  by (simp add: py_replace_def py_contains_scan replace_scan_absent)

lemma add_secondary_info_absent:
  \<open>\<not> py_contains html ''title="'' \<Longrightarrow> add_secondary_info html secondaries = html\<close>
  by (simp add: add_secondary_info_def Let_def py_replace_absent)

lemma add_secondary_info_none: "add_secondary_info html [] = html"
  by (simp add: add_secondary_info_def)

section \<open>Layout of the rendered text\<close>

lemma group_html_segment:
  "group_html e es =
     segment_html (Group (longest_from e es) (filter (\<lambda>x. x \<noteq> longest_from e es) (e # es)))"
proof (cases es)
  case Nil
  then show ?thesis by (simp add: group_html_def add_secondary_info_none)
next
  case (Cons x xs)
  then show ?thesis by (simp add: group_html_def Let_def)
qed

lemma markup_loop_segments:
  "[] \<notin> set groups \<Longrightarrow>
     \<exists>lp' r'. markup_loop t groups lp result = Inr (lp', r') \<and>
       concat (if lp' < int (length t) then r' @ [html_escape (py_slice_from t lp')] else r')
         = concat result @ concat (map segment_html (segments t groups lp))"
proof (induction groups arbitrary: lp result)
  case Nil
  then show ?case by simp
next
  case (Cons g groups)
  then obtain e es where g: "g = e # es" by (cases g) auto
  from Cons.prems have ne: "[] \<notin> set groups" by simp
  define gap where "gap = (if group_start e es > lp
      then [Gap (py_slice t lp (group_start e es))] else [])"
  define grp where "grp = Group (longest_from e es) (filter (\<lambda>x. x \<noteq> longest_from e es) (e # es))"
  define r where "r = (if group_start e es > lp
             then result @ [html_escape (py_slice t lp (group_start e es))] else result)
            @ [group_html e es]"
  have ml: "markup_loop t (g # groups) lp result = markup_loop t groups (group_end e es) r"
    by (simp add: g r_def)
  have sg: "segments t (g # groups) lp = gap @ [grp] @ segments t groups (group_end e es)"
    by (simp del: filter.simps add: g gap_def grp_def)
  have cr: "concat r = concat result @ concat (map segment_html (gap @ [grp]))"
    by (simp del: filter.simps add: r_def gap_def grp_def group_html_segment)
  from Cons.IH [OF ne, where lp = "group_end e es" and result = r]
  obtain lp' r' where res: "markup_loop t groups (group_end e es) r = Inr (lp', r')"
    and eq: "concat (if lp' < int (length t) then r' @ [html_escape (py_slice_from t lp')] else r')
         = concat r @ concat (map segment_html (segments t groups (group_end e es)))"
    by blast
  from eq have "concat (if lp' < int (length t) then r' @ [html_escape (py_slice_from t lp')] else r')
         = concat result @ concat (map segment_html (segments t (g # groups) lp))"
    by (simp only: cr sg map_append concat_append append_assoc)
  with ml res show ?case by simp
qed

lemma resolve_overlaps_nonempty_groups: "[] \<notin> set (resolve_overlaps es)"
  by (cases es) (simp_all add: resolve_overlaps_def resolve_loop_nonempty)

lemma markup_text_segments:
  "markup_text t es = Inr (concat (map segment_html (segments t (resolve_overlaps es) 0)))"
proof (cases "es = []")
  case True
  then show ?thesis
    by (simp add: markup_text_def resolve_overlaps_def py_slice_from_def slice_index_def html_escape_def)
next
  case False
  from markup_loop_segments [OF resolve_overlaps_nonempty_groups, where t = t and lp = 0
      and result = "[]"]
  obtain lp' r' where "markup_loop t (resolve_overlaps es) 0 [] = Inr (lp', r')"
    and "concat (if lp' < int (length t) then r' @ [html_escape (py_slice_from t lp')] else r')
         = concat (map segment_html (segments t (resolve_overlaps es) 0))"
    by force
  with False show ?thesis by (simp add: markup_text_def)
qed

section \<open>Occurrence numbering\<close>

lemma add_occurrences_other_source:
  "src \<noteq> ground_truth \<Longrightarrow>
     filter (\<lambda>e. source e = ground_truth) (snd (add_occurrences sp tys src occ st))
       = filter (\<lambda>e. source e = ground_truth) (snd st)"
proof (induction occ arbitrary: st)
  case Nil
  then show ?case by simp
next
  case (Cons p occ)
  obtain s f where p: "p = (s, f)" by (cases p)
  obtain c es where st: "st = (c, es)" by (cases st)
  from Cons show ?case unfolding p st by (simp add: Let_def)
qed

lemma add_annotations_other_source:
  "src \<noteq> ground_truth \<Longrightarrow>
     filter (\<lambda>e. source e = ground_truth) (snd (add_annotations t src anns st))
       = filter (\<lambda>e. source e = ground_truth) (snd st)"
  by (induction anns arbitrary: st) (simp_all add: add_occurrences_other_source)

lemma str_int_2: "str_int 2 = ''2''"
  by code_simp

lemma str_int_3: "str_int 3 = ''3''"
  by code_simp

lemma py_slice_empty: "py_slice t x x = []"
  by (simp add: py_slice_def Let_def)

lemma gap_segment:
  "x \<le> y \<Longrightarrow>
     concat (map segment_html (if y > x then [Gap (py_slice t x y)] else []))
       = html_escape (py_slice t x y)"
  by (cases "y > x") (simp_all add: py_slice_empty html_escape_def)

lemma tail_segment:
  "0 \<le> lp \<Longrightarrow>
     concat (map segment_html (if lp < int (length t) then [Gap (py_slice_from t lp)] else []))
       = html_escape (py_slice_from t lp)"
  by (cases "lp < int (length t)") (simp_all add: py_slice_from_def slice_index_def html_escape_def)

lemma ground_truth_three:
  assumes "labels it = Some [\<lparr>span = s, span_types = tys\<rparr>]"
    and "find_all_occurrences (item_text it) s = [(a, a'), (b, b'), (c, c')]"
    and "a' \<le> b" and "b' \<le> c"
  shows "filter (\<lambda>e. source e = ground_truth) (extract_entities it) =
      [gt_occurrence s tys a a' 1, gt_occurrence s tys b b' 2, gt_occurrence s tys c c' 3]"
proof -
  let ?t = "item_text it"
  let ?s0 = "add_annotations ?t ground_truth (get_list (labels it)) (\<lambda>_. 0, [])"
  let ?s1 = "add_annotations ?t mistral (get_list (mistral_small_3_2_output it)) (\<lambda>_. 0, snd ?s0)"
  let ?s2 = "add_annotations ?t gpt4 (get_list (gpt_4o_mini_output it)) (\<lambda>_. 0, snd ?s1)"
  let ?es = "[gt_occurrence s tys a a' 1, gt_occurrence s tys b b' 2, gt_occurrence s tys c c' 3]"
  have mem: "(a, a') \<in> set (find_all_occurrences ?t s)" "(b, b') \<in> set (find_all_occurrences ?t s)"
    "(c, c') \<in> set (find_all_occurrences ?t s)"
    by (simp_all add: assms(2))
  from mem [THEN find_all_occurrences_member]
  have ends: "a' = a + length s" "b' = b + length s" "c' = c + length s" by simp_all
  have s0: "snd ?s0 = ?es"
    by (simp add: assms(1,2) get_list_def gt_occurrence_def)
  have "extract_unsorted it = snd ?s2"
    by (simp add: extract_unsorted_def Let_def split: prod.splits)
  then have "filter (\<lambda>e. source e = ground_truth) (extract_unsorted it) =
      filter (\<lambda>e. source e = ground_truth) (snd ?s0)"
    by (simp add: add_annotations_other_source)
  also have "\<dots> = ?es" by (simp add: s0 gt_occurrence_def)
  finally have f: "filter (\<lambda>e. source e = ground_truth) (extract_unsorted it) = ?es" .
  have "filter (\<lambda>e. source e = ground_truth) (extract_entities it) = sort_key sort_key_of ?es"
    by (simp only: extract_entities_def filter_sort f)
  also have "\<dots> = ?es"
    using assms(3,4) ends
    by (auto simp add: sort_key_of_def gt_occurrence_def less_eq_prod_def)
  finally show ?thesis .
qed

lemma three_groups:
  assumes "a' \<le> b" and "b' \<le> c"
  shows "resolve_overlaps
      [gt_occurrence s tys a a' 1, gt_occurrence s tys b b' 2, gt_occurrence s tys c c' 3]
    = [[gt_occurrence s tys a a' 1], [gt_occurrence s tys b b' 2], [gt_occurrence s tys c c' 3]]"
  using assms by (simp add: resolve_overlaps_def overlaps_def gt_occurrence_def)

lemma single_group_html: "segment_html (Group e []) = rendered_with e (occurrence_suffix e)"
  by (simp add: add_secondary_info_none create_entity_html_def rendered_with_def)

lemma three_markup:
  assumes "a \<le> a'" and "a' \<le> b" and "b \<le> b'" and "b' \<le> c" and "c \<le> c'"
  shows "markup_text t
      [gt_occurrence s tys a a' 1, gt_occurrence s tys b b' 2, gt_occurrence s tys c c' 3]
    = Inr (html_escape (py_slice t 0 (int a))
           @ rendered_with (gt_occurrence s tys a a' 1) []
           @ html_escape (py_slice t (int a') (int b))
           @ rendered_with (gt_occurrence s tys b b' 2) ''<sup>2</sup>''
           @ html_escape (py_slice t (int b') (int c))
           @ rendered_with (gt_occurrence s tys c c' 3) ''<sup>3</sup>''
           @ html_escape (py_slice_from t (int c')))"
proof -
  let ?e1 = "gt_occurrence s tys a a' 1"
  let ?e2 = "gt_occurrence s tys b b' 2"
  let ?e3 = "gt_occurrence s tys c c' 3"
  have pos: "start ?e1 = int a" "end_pos ?e1 = int a'" "start ?e2 = int b" "end_pos ?e2 = int b'"
    "start ?e3 = int c" "end_pos ?e3 = int c'"
    by (simp_all add: gt_occurrence_def)
  have seg: "segments t [[?e1], [?e2], [?e3]] 0 =
      (if int a > 0 then [Gap (py_slice t 0 (int a))] else []) @ [Group ?e1 []]
      @ (if int b > int a' then [Gap (py_slice t (int a') (int b))] else []) @ [Group ?e2 []]
      @ (if int c > int b' then [Gap (py_slice t (int b') (int c))] else []) @ [Group ?e3 []]
      @ (if int c' < int (length t) then [Gap (py_slice_from t (int c'))] else [])"
    by (simp add: group_start_def group_end_def pos)
  have sup: "occurrence_suffix ?e1 = []" "occurrence_suffix ?e2 = ''<sup>2</sup>''"
    "occurrence_suffix ?e3 = ''<sup>3</sup>''"
    by (simp_all add: occurrence_suffix_def gt_occurrence_def str_int_2 str_int_3)
  have g0: "concat (map segment_html (if int a > 0 then [Gap (py_slice t 0 (int a))] else []))
      = html_escape (py_slice t 0 (int a))"
    by (rule gap_segment) simp
  have g1: "concat (map segment_html (if int b > int a' then [Gap (py_slice t (int a') (int b))] else []))
      = html_escape (py_slice t (int a') (int b))"
    by (rule gap_segment) (simp add: assms)
  have g2: "concat (map segment_html (if int c > int b' then [Gap (py_slice t (int b') (int c))] else []))
      = html_escape (py_slice t (int b') (int c))"
    by (rule gap_segment) (simp add: assms)
  have g3: "concat (map segment_html (if int c' < int (length t) then [Gap (py_slice_from t (int c'))] else []))
      = html_escape (py_slice_from t (int c'))"
    by (rule tail_segment) simp
  show ?thesis
    unfolding markup_text_segments three_groups [OF assms(2,4)] seg
    by (simp only: map_append concat_append g0 g1 g2 g3 single_group_html sup
        list.map concat.simps append_Nil2 append_assoc)
qed

lemma create_entity_html_suffix:
  "create_entity_html e p =
     opening_tag e p @ html_escape (span_text e)
     @ (if 1 < occurrence_id e then ''<sup>'' @ str_int (occurrence_id e) @ ''</sup>'' else [])
     @ tooltip_html e @ ''</span>''"
  by (simp add: create_entity_html_def occurrence_suffix_def)

lemma single_label_markup:
  assumes "labels it = Some [\<lparr>span = s, span_types = tys\<rparr>]"
    and "find_all_occurrences (item_text it) s = [(a, a'), (b, b'), (c, c')]"
    and "a' \<le> b" and "b' \<le> c"
  shows "(\<forall>e p. create_entity_html e p =
            opening_tag e p @ html_escape (span_text e)
            @ (if 1 < occurrence_id e then ''<sup>'' @ str_int (occurrence_id e) @ ''</sup>'' else [])
            @ tooltip_html e @ ''</span>'')
    \<and> filter (\<lambda>e. source e = ground_truth) (extract_entities it) =
        [gt_occurrence s tys a a' 1, gt_occurrence s tys b b' 2, gt_occurrence s tys c c' 3]
    \<and> markup_text (item_text it) (filter (\<lambda>e. source e = ground_truth) (extract_entities it)) =
        Inr (html_escape (py_slice (item_text it) 0 (int a))
             @ rendered_with (gt_occurrence s tys a a' 1) []
             @ html_escape (py_slice (item_text it) (int a') (int b))
             @ rendered_with (gt_occurrence s tys b b' 2) ''<sup>2</sup>''
             @ html_escape (py_slice (item_text it) (int b') (int c))
             @ rendered_with (gt_occurrence s tys c c' 3) ''<sup>3</sup>''
             @ html_escape (py_slice_from (item_text it) (int c')))"
proof -
  have mem: "(a, a') \<in> set (find_all_occurrences (item_text it) s)"
    "(b, b') \<in> set (find_all_occurrences (item_text it) s)"
    "(c, c') \<in> set (find_all_occurrences (item_text it) s)"
    by (simp_all add: assms(2))
  from mem [THEN find_all_occurrences_member]
  have le: "a \<le> a'" "b \<le> b'" "c \<le> c'" by simp_all
  note gt = ground_truth_three [OF assms]
  have "markup_text (item_text it) (filter (\<lambda>e. source e = ground_truth) (extract_entities it)) =
        Inr (html_escape (py_slice (item_text it) 0 (int a))
             @ rendered_with (gt_occurrence s tys a a' 1) []
             @ html_escape (py_slice (item_text it) (int a') (int b))
             @ rendered_with (gt_occurrence s tys b b' 2) ''<sup>2</sup>''
             @ html_escape (py_slice (item_text it) (int b') (int c))
             @ rendered_with (gt_occurrence s tys c c' 3) ''<sup>3</sup>''
             @ html_escape (py_slice_from (item_text it) (int c')))"
    unfolding gt by (rule three_markup [OF le(1) assms(3) le(2) assms(4) le(3)])
  with gt create_entity_html_suffix show ?thesis by blast
qed

section \<open>Occurrence numbering among other labels\<close>

lemma add_annotations_append:
  "add_annotations t src (xs @ ys) st = add_annotations t src ys (add_annotations t src xs st)"
  by (induction xs arbitrary: st) simp_all

lemma add_occurrences_other_text:
  "sp \<noteq> s \<Longrightarrow>
     fst (add_occurrences sp tys src occ st) s = fst st s
     \<and> filter (\<lambda>e. span_text e = s) (snd (add_occurrences sp tys src occ st))
         = filter (\<lambda>e. span_text e = s) (snd st)"
proof (induction occ arbitrary: st)
  case Nil
  then show ?case by simp
next
  case (Cons p occ)
  obtain x y where p: "p = (x, y)" by (cases p)
  obtain c es where st: "st = (c, es)" by (cases st)
  from Cons show ?case unfolding p st by (simp add: Let_def)
qed

lemma add_annotations_other_text:
  "\<forall>l\<in>set anns. span l \<noteq> s \<Longrightarrow>
     fst (add_annotations t src anns st) s = fst st s
     \<and> filter (\<lambda>e. span_text e = s) (snd (add_annotations t src anns st))
         = filter (\<lambda>e. span_text e = s) (snd st)"
proof (induction anns arbitrary: st)
  case Nil
  then show ?case by simp
next
  case (Cons l anns)
  then have ne: "span l \<noteq> s" and rest: "\<forall>l\<in>set anns. span l \<noteq> s" by simp_all
  let ?st = "add_occurrences (span l) (span_types l) src (find_all_occurrences t (span l)) st"
  from add_occurrences_other_text [OF ne, of "span_types l" src "find_all_occurrences t (span l)" st]
  have "fst ?st s = fst st s"
    and "filter (\<lambda>e. span_text e = s) (snd ?st) = filter (\<lambda>e. span_text e = s) (snd st)"
    by simp_all
  with Cons.IH [OF rest, of ?st] show ?case by simp
qed

lemma add_annotations_entities:
  "set (snd (add_annotations t src anns st)) \<subseteq>
     set (snd st) \<union>
     {e. \<exists>l\<in>set anns. \<exists>x y. (x, y) \<in> set (find_all_occurrences t (span l))
          \<and> start e = int x \<and> end_pos e = int y \<and> span_text e = span l}"
proof (induction anns arbitrary: st)
  case Nil
  then show ?case by simp
next
  case (Cons l anns)
  let ?st = "add_occurrences (span l) (span_types l) src (find_all_occurrences t (span l)) st"
  have step: "set (snd ?st) \<subseteq> set (snd st) \<union>
     {e. \<exists>x y. (x, y) \<in> set (find_all_occurrences t (span l))
          \<and> start e = int x \<and> end_pos e = int y \<and> span_text e = span l}"
    by (rule add_occurrences_entities)
  have "set (snd (add_annotations t src (l # anns) st)) = set (snd (add_annotations t src anns ?st))"
    by simp
  also have "\<dots> \<subseteq> set (snd ?st) \<union>
     {e. \<exists>l\<in>set anns. \<exists>x y. (x, y) \<in> set (find_all_occurrences t (span l))
          \<and> start e = int x \<and> end_pos e = int y \<and> span_text e = span l}"
    by (rule Cons.IH)
  finally have "set (snd (add_annotations t src (l # anns) st)) \<subseteq> set (snd ?st) \<union>
     {e. \<exists>l\<in>set anns. \<exists>x y. (x, y) \<in> set (find_all_occurrences t (span l))
          \<and> start e = int x \<and> end_pos e = int y \<and> span_text e = span l}" .
  with step show ?case by (simp only: set_simps) blast
qed

lemma three_occurrences_added:
  assumes "fst st s = 0"
  shows "snd (add_occurrences s tys ground_truth [(a, a'), (b, b'), (c, c')] st) =
     snd st @ [gt_occurrence s tys a a' 1, gt_occurrence s tys b b' 2, gt_occurrence s tys c c' 3]"
proof -
  obtain cn es where st: "st = (cn, es)" by (cases st)
  with assms have "cn s = 0" by simp
  then show ?thesis unfolding st by (simp add: Let_def gt_occurrence_def)
qed

lemma filter_split:
  assumes "filter P xs = x # rest"
  shows "\<exists>us vs. xs = us @ x # vs \<and> (\<forall>u\<in>set us. \<not> P u) \<and> filter P vs = rest"
proof -
  from assms have "\<exists>us vs. xs = us @ x # vs \<and> (\<forall>u\<in>set us. \<not> P u) \<and> P x \<and> rest = filter P vs"
    by (simp add: filter_eq_Cons_iff)
  then show ?thesis by blast
qed

lemma filter_three:
  assumes "filter P xs = [x1, x2, x3]"
  shows "\<exists>l0 l1 l2 l3. xs = l0 @ x1 # l1 @ x2 # l2 @ x3 # l3
      \<and> (\<forall>y\<in>set l0 \<union> set l1 \<union> set l2 \<union> set l3. \<not> P y)"
proof -
  from filter_split [OF assms] obtain l0 r0 where
    0: "xs = l0 @ x1 # r0" "\<forall>u\<in>set l0. \<not> P u" "filter P r0 = [x2, x3]" by blast
  from filter_split [OF 0(3)] obtain l1 r1 where
    1: "r0 = l1 @ x2 # r1" "\<forall>u\<in>set l1. \<not> P u" "filter P r1 = [x3]" by blast
  from filter_split [OF 1(3)] obtain l2 l3 where
    2: "r1 = l2 @ x3 # l3" "\<forall>u\<in>set l2. \<not> P u" "filter P l3 = []" by blast
  from 2(3) have 3: "\<forall>u\<in>set l3. \<not> P u" by (simp add: filter_empty_conv)
  have "xs = l0 @ x1 # l1 @ x2 # l2 @ x3 # l3" by (simp add: 0(1) 1(1) 2(1))
  moreover have "\<forall>y\<in>set l0 \<union> set l1 \<union> set l2 \<union> set l3. \<not> P y"
    using 0(2) 1(2) 2(2) 3 by blast
  ultimately show ?thesis by blast
qed

lemma resolve_loop_prefix:
  "resolve_loop rest (gs1 @ gs2) cur = gs1 @ resolve_loop rest gs2 cur"
  by (induction rest arbitrary: gs2 cur) simp_all

lemma resolve_loop_after_single:
  assumes "\<forall>x\<in>set ys. \<not> overlaps x e"
  shows "resolve_loop ys groups [e] = groups @ [[e]] @ resolve_overlaps ys"
proof (cases ys)
  case Nil
  then show ?thesis by (simp add: resolve_overlaps_def)
next
  case (Cons x rest)
  with assms have "\<not> overlaps x e" by simp
  then have "resolve_loop ys groups [e] = resolve_loop rest (groups @ [[e]]) [x]"
    by (simp add: Cons)
  also have "\<dots> = (groups @ [[e]]) @ resolve_loop rest [] [x]"
    using resolve_loop_prefix [of rest "groups @ [[e]]" "[]" "[x]"] by simp
  finally show ?thesis by (simp add: Cons resolve_overlaps_def)
qed

lemma resolve_loop_isolated:
  assumes "\<forall>x\<in>set (cur @ xs @ ys). \<not> overlaps x e \<and> \<not> overlaps e x"
  shows "resolve_loop (xs @ e # ys) groups cur =
      resolve_loop xs groups cur @ [[e]] @ resolve_overlaps ys"
  using assms
proof (induction xs arbitrary: groups cur)
  case Nil
  then have "\<not> overlaps_any e cur" by (auto simp: overlaps_any_iff)
  moreover from Nil have "\<forall>x\<in>set ys. \<not> overlaps x e" by simp
  ultimately show ?case by (simp add: resolve_loop_after_single)
next
  case (Cons x xs)
  show ?case
  proof (cases "overlaps_any x cur")
    case True
    from Cons.prems have "\<forall>y\<in>set ((cur @ [x]) @ xs @ ys). \<not> overlaps y e \<and> \<not> overlaps e y"
      by auto
    from Cons.IH [OF this] True show ?thesis by simp
  next
    case False
    from Cons.prems have "\<forall>y\<in>set ([x] @ xs @ ys). \<not> overlaps y e \<and> \<not> overlaps e y"
      by auto
    from Cons.IH [OF this] False show ?thesis by simp
  qed
qed

lemma resolve_overlaps_isolated:
  assumes "\<forall>x\<in>set (xs @ ys). \<not> overlaps x e"
  shows "resolve_overlaps (xs @ e # ys) = resolve_overlaps xs @ [[e]] @ resolve_overlaps ys"
proof (cases xs)
  case Nil
  with assms show ?thesis
    using resolve_loop_after_single [of ys e "[]"] by (simp add: resolve_overlaps_def)
next
  case (Cons x rest)
  from assms have "\<forall>y\<in>set ([x] @ rest @ ys). \<not> overlaps y e \<and> \<not> overlaps e y"
    by (auto simp: Cons overlaps_sym [of e])
  from resolve_loop_isolated [OF this] show ?thesis
    by (simp add: Cons resolve_overlaps_def)
qed

lemma resolve_overlaps_concat: "concat (resolve_overlaps es) = es"
  by (cases es) (simp_all add: resolve_overlaps_def resolve_loop_concat)

lemma longest_from_mem: "longest_from best xs \<in> set (best # xs)"
  by (induction xs arbitrary: best) (auto split: if_splits)

lemma segments_append:
  "\<exists>pre lp'. (\<forall>Y. segments t (X @ Y) lp = pre @ segments t Y lp')
      \<and> (\<forall>p secs. Group p secs \<in> set pre \<longrightarrow> p \<in> set (concat X))"
proof (induction X arbitrary: lp)
  case Nil
  have "(\<forall>Y. segments t ([] @ Y) lp = [] @ segments t Y lp)
      \<and> (\<forall>p secs. Group p secs \<in> set [] \<longrightarrow> p \<in> set (concat []))" by simp
  then show ?case by blast
next
  case (Cons g X)
  show ?case
  proof (cases g)
    case Nil
    from Cons.IH [of lp] obtain pre lp' where
      "\<forall>Y. segments t (X @ Y) lp = pre @ segments t Y lp'"
      "\<forall>p secs. Group p secs \<in> set pre \<longrightarrow> p \<in> set (concat X)" by blast
    then have "(\<forall>Y. segments t ((g # X) @ Y) lp = pre @ segments t Y lp')
      \<and> (\<forall>p secs. Group p secs \<in> set pre \<longrightarrow> p \<in> set (concat (g # X)))"
      by (simp add: Nil)
    then show ?thesis by blast
  next
    case (Cons e es)
    define gap where "gap = (if group_start e es > lp
        then [Gap (py_slice t lp (group_start e es))] else [])"
    define grp where "grp = Group (longest_from e es) (filter (\<lambda>x. x \<noteq> longest_from e es) (e # es))"
    from Cons.IH [of "group_end e es"] obtain pre lp' where
      pre: "\<forall>Y. segments t (X @ Y) (group_end e es) = pre @ segments t Y lp'"
      "\<forall>p secs. Group p secs \<in> set pre \<longrightarrow> p \<in> set (concat X)" by blast
    have a: "\<forall>Y. segments t ((g # X) @ Y) lp = (gap @ [grp] @ pre) @ segments t Y lp'"
      using pre(1) by (simp del: filter.simps add: Cons gap_def grp_def)
    have "longest_from e es \<in> set g" using longest_from_mem [of e es] by (simp add: Cons)
    then have b: "\<forall>p secs. Group p secs \<in> set (gap @ [grp] @ pre) \<longrightarrow> p \<in> set (concat (g # X))"
      using pre(2) by (auto simp: gap_def grp_def split: if_splits)
    from a b show ?thesis by blast
  qed
qed

lemma segments_groups_from:
  "Group p secs \<in> set (segments t X lp) \<Longrightarrow> p \<in> set (concat X)"
proof -
  assume m: "Group p secs \<in> set (segments t X lp)"
  from segments_append [of t X lp] obtain pre lp' where
    pre: "\<forall>Y. segments t (X @ Y) lp = pre @ segments t Y lp'"
    "\<forall>p secs. Group p secs \<in> set pre \<longrightarrow> p \<in> set (concat X)" by blast
  from pre(1) have "segments t (X @ []) lp = pre @ segments t [] lp'" by (rule spec)
  then have "segments t X lp = pre @ segments t [] lp'" by simp
  with m have "Group p secs \<in> set pre" by (auto split: if_splits)
  with pre(2) show ?thesis by blast
qed

lemma segments_single:
  "segments t ([e] # Y) lp =
     (if start e > lp then [Gap (py_slice t lp (start e))] else []) @ [Group e []]
     @ segments t Y (end_pos e)"
  by (simp add: group_start_def group_end_def)

lemma no_shows_filter:
  "\<forall>seg\<in>set xs. \<not> shows_span s seg \<Longrightarrow> filter (shows_span s) xs = []"
  by (simp add: filter_empty_conv)

lemma gap_not_shows:
  "\<forall>seg\<in>set (if c then [Gap g] else []). \<not> shows_span s seg"
  by (simp add: shows_span_def)

lemma groups_not_shows:
  assumes "\<forall>p secs. Group p secs \<in> set xs \<longrightarrow> p \<in> set l"
    and "\<forall>y\<in>set l. span_text y \<noteq> s"
  shows "\<forall>seg\<in>set xs. \<not> shows_span s seg"
proof
  fix seg assume m: "seg \<in> set xs"
  show "\<not> shows_span s seg"
  proof (cases seg)
    case (Gap g)
    then show ?thesis by (simp add: shows_span_def)
  next
    case (Group p secs)
    with m assms(1) have "p \<in> set l" by blast
    with assms(2) Group show ?thesis by (simp add: shows_span_def)
  qed
qed

lemma ground_truth_three_general:
  assumes lab: "labels it = Some (pre @ [\<lparr>span = s, span_types = tys\<rparr>] @ post)"
    and occ: "find_all_occurrences (item_text it) s = [(a, a'), (b, b'), (c, c')]"
    and ab: "a' \<le> b" and bc: "b' \<le> c"
    and clear: "\<forall>l\<in>set (pre @ post).
        list_all (clear_of [(a, a'), (b, b'), (c, c')]) (find_all_occurrences (item_text it) (span l))"
  shows "filter (\<lambda>e. span_text e = s) (ground_truth_spans it) =
        [gt_occurrence s tys a a' 1, gt_occurrence s tys b b' 2, gt_occurrence s tys c c' 3]"
    and "\<forall>y\<in>set (ground_truth_spans it). span_text y \<noteq> s \<longrightarrow>
        \<not> overlaps y (gt_occurrence s tys a a' 1) \<and> \<not> overlaps y (gt_occurrence s tys b b' 2)
        \<and> \<not> overlaps y (gt_occurrence s tys c c' 3)"
proof -
  let ?t = "item_text it"
  let ?L = "\<lparr>span = s, span_types = tys\<rparr>"
  let ?es = "[gt_occurrence s tys a a' 1, gt_occurrence s tys b b' 2, gt_occurrence s tys c c' 3]"
  let ?fs = "filter (\<lambda>e. span_text e = s)"
  let ?fg = "filter (\<lambda>e. source e = ground_truth)"
  have other: "span l \<noteq> s" if "l \<in> set (pre @ post)" for l
  proof
    assume "span l = s"
    from clear that
    have "list_all (clear_of [(a, a'), (b, b'), (c, c')]) (find_all_occurrences (item_text it) (span l))"
      by blast
    then have "list_all (clear_of [(a, a'), (b, b'), (c, c')]) [(a, a'), (b, b'), (c, c')]"
      by (simp only: \<open>span l = s\<close> occ)
    then show False by (simp add: clear_of_def)
  qed
  define st1 where "st1 = add_annotations ?t ground_truth pre (\<lambda>_. 0, [])"
  define st2 where "st2 = add_annotations ?t ground_truth [?L] st1"
  define st3 where "st3 = add_annotations ?t ground_truth post st2"
  have pre_ne: "\<forall>l\<in>set pre. span l \<noteq> s" and post_ne: "\<forall>l\<in>set post. span l \<noteq> s"
    using other by simp_all
  from add_annotations_other_text [OF pre_ne, of ?t ground_truth "(\<lambda>_. 0, [])"]
  have c1: "fst st1 s = 0" and f1: "?fs (snd st1) = []"
    by (simp_all add: st1_def)
  have "snd st2 = snd st1 @ ?es"
    unfolding st2_def using three_occurrences_added [OF c1] by (simp add: occ)
  then have f2: "?fs (snd st2) = ?es"
    by (simp add: f1 gt_occurrence_def)
  from add_annotations_other_text [OF post_ne, of ?t ground_truth st2]
  have f3: "?fs (snd st3) = ?es"
    by (simp add: st3_def f2)
  have st3: "st3 = add_annotations ?t ground_truth (get_list (labels it)) (\<lambda>_. 0, [])"
    by (simp add: st3_def st2_def st1_def lab get_list_def add_annotations_append)
  let ?s1 = "add_annotations ?t mistral (get_list (mistral_small_3_2_output it)) (\<lambda>_. 0, snd st3)"
  let ?s2 = "add_annotations ?t gpt4 (get_list (gpt_4o_mini_output it)) (\<lambda>_. 0, snd ?s1)"
  have "extract_unsorted it = snd ?s2"
    by (simp add: extract_unsorted_def Let_def st3 split: prod.splits)
  then have fg: "?fg (extract_unsorted it) = ?fg (snd st3)"
    by (simp add: add_annotations_other_source)
  have gts: "ground_truth_spans it = sort_key sort_key_of (?fg (snd st3))"
    by (simp only: ground_truth_spans_def extract_entities_def filter_sort fg)
  have mem: "(a, a') \<in> set (find_all_occurrences ?t s)" "(b, b') \<in> set (find_all_occurrences ?t s)"
    "(c, c') \<in> set (find_all_occurrences ?t s)"
    by (simp_all add: occ)
  from mem [THEN find_all_occurrences_member]
  have ends: "a' = a + length s" "b' = b + length s" "c' = c + length s" by simp_all
  have "?fs (?fg (snd st3)) = ?fg (?fs (snd st3))"
    by (simp add: conj_commute)
  also have "\<dots> = ?es" by (simp add: f3 gt_occurrence_def)
  finally have fsg: "?fs (?fg (snd st3)) = ?es" .
  have "?fs (ground_truth_spans it) = sort_key sort_key_of ?es"
    by (simp only: gts filter_sort fsg)
  also have "\<dots> = ?es"
    using ab bc ends
    by (auto simp add: sort_key_of_def gt_occurrence_def less_eq_prod_def)
  finally show "?fs (ground_truth_spans it) = ?es" .
  show "\<forall>y\<in>set (ground_truth_spans it). span_text y \<noteq> s \<longrightarrow>
        \<not> overlaps y (gt_occurrence s tys a a' 1) \<and> \<not> overlaps y (gt_occurrence s tys b b' 2)
        \<and> \<not> overlaps y (gt_occurrence s tys c c' 3)"
  proof (intro ballI impI)
    fix y
    assume y: "y \<in> set (ground_truth_spans it)" and ne: "span_text y \<noteq> s"
    from y have "y \<in> set (snd st3)" by (simp add: gts)
    with add_annotations_entities [of ?t ground_truth "get_list (labels it)" "(\<lambda>_. 0, [])"]
    obtain l x x' where l: "l \<in> set (get_list (labels it))"
      and xx: "(x, x') \<in> set (find_all_occurrences ?t (span l))"
      and pos: "start y = int x" "end_pos y = int x'" and tx: "span_text y = span l"
      unfolding st3 [symmetric] by auto
    from l tx ne have "l \<in> set (pre @ post)" by (auto simp: lab get_list_def)
    with clear xx have "clear_of [(a, a'), (b, b'), (c, c')] (x, x')"
      by (auto simp: list_all_iff)
    then have "\<not> pair_overlaps (x, x') (a, a')" "\<not> pair_overlaps (x, x') (b, b')"
      "\<not> pair_overlaps (x, x') (c, c')"
      by (simp_all add: clear_of_def)
    then show "\<not> overlaps y (gt_occurrence s tys a a' 1) \<and> \<not> overlaps y (gt_occurrence s tys b b' 2)
        \<and> \<not> overlaps y (gt_occurrence s tys c c' 3)"
      by (simp add: pair_overlaps_def overlaps_def gt_occurrence_def pos)
  qed
qed

lemma isolated_three_groups:
  assumes dec: "G = l0 @ e1 # l1 @ e2 # l2 @ e3 # l3"
    and others: "\<forall>y\<in>set l0 \<union> set l1 \<union> set l2 \<union> set l3.
        \<not> overlaps y e1 \<and> \<not> overlaps y e2 \<and> \<not> overlaps y e3"
    and apart: "\<not> overlaps e2 e1" "\<not> overlaps e3 e1" "\<not> overlaps e3 e2"
  shows "resolve_overlaps G =
      resolve_overlaps l0 @ [[e1]] @ resolve_overlaps l1 @ [[e2]] @ resolve_overlaps l2 @ [[e3]]
      @ resolve_overlaps l3"
proof -
  have 1: "resolve_overlaps (l0 @ e1 # (l1 @ e2 # l2 @ e3 # l3)) =
      resolve_overlaps l0 @ [[e1]] @ resolve_overlaps (l1 @ e2 # l2 @ e3 # l3)"
    by (rule resolve_overlaps_isolated) (use others apart in auto)
  have 2: "resolve_overlaps (l1 @ e2 # (l2 @ e3 # l3)) =
      resolve_overlaps l1 @ [[e2]] @ resolve_overlaps (l2 @ e3 # l3)"
    by (rule resolve_overlaps_isolated) (use others apart in auto)
  have 3: "resolve_overlaps (l2 @ e3 # l3) =
      resolve_overlaps l2 @ [[e3]] @ resolve_overlaps l3"
    by (rule resolve_overlaps_isolated) (use others in auto)
  show ?thesis unfolding dec by (simp only: 1 2 3 append_assoc)
qed

lemma isolated_three_segments:
  assumes s1: "span_text e1 = s" and s2: "span_text e2 = s" and s3: "span_text e3 = s"
    and o0: "\<forall>y\<in>set l0. span_text y \<noteq> s" and o1: "\<forall>y\<in>set l1. span_text y \<noteq> s"
    and o2: "\<forall>y\<in>set l2. span_text y \<noteq> s" and o3: "\<forall>y\<in>set l3. span_text y \<noteq> s"
  shows "\<exists>S0 S1 S2 S3.
      segments t (resolve_overlaps l0 @ [[e1]] @ resolve_overlaps l1 @ [[e2]]
          @ resolve_overlaps l2 @ [[e3]] @ resolve_overlaps l3) lp
        = S0 @ [Group e1 []] @ S1 @ [Group e2 []] @ S2 @ [Group e3 []] @ S3
      \<and> (\<forall>seg\<in>set S0 \<union> set S1 \<union> set S2 \<union> set S3. \<not> shows_span s seg)"
proof -
  let ?R0 = "resolve_overlaps l0" and ?R1 = "resolve_overlaps l1"
  let ?R2 = "resolve_overlaps l2" and ?R3 = "resolve_overlaps l3"
  from segments_append [of t ?R0 lp] obtain p0 lp0 where
    p0: "\<forall>Y. segments t (?R0 @ Y) lp = p0 @ segments t Y lp0"
    and g0: "\<forall>p secs. Group p secs \<in> set p0 \<longrightarrow> p \<in> set l0"
    by (auto simp: resolve_overlaps_concat)
  define gap1 where "gap1 = (if start e1 > lp0 then [Gap (py_slice t lp0 (start e1))] else [])"
  from segments_append [of t ?R1 "end_pos e1"] obtain p1 lp1 where
    p1: "\<forall>Y. segments t (?R1 @ Y) (end_pos e1) = p1 @ segments t Y lp1"
    and g1: "\<forall>p secs. Group p secs \<in> set p1 \<longrightarrow> p \<in> set l1"
    by (auto simp: resolve_overlaps_concat)
  define gap2 where "gap2 = (if start e2 > lp1 then [Gap (py_slice t lp1 (start e2))] else [])"
  from segments_append [of t ?R2 "end_pos e2"] obtain p2 lp2 where
    p2: "\<forall>Y. segments t (?R2 @ Y) (end_pos e2) = p2 @ segments t Y lp2"
    and g2: "\<forall>p secs. Group p secs \<in> set p2 \<longrightarrow> p \<in> set l2"
    by (auto simp: resolve_overlaps_concat)
  define gap3 where "gap3 = (if start e3 > lp2 then [Gap (py_slice t lp2 (start e3))] else [])"
  define S3 where "S3 = segments t ?R3 (end_pos e3)"
  have g3: "\<forall>p secs. Group p secs \<in> set S3 \<longrightarrow> p \<in> set l3"
    unfolding S3_def using segments_groups_from [of _ _ t ?R3 "end_pos e3"]
    by (auto simp: resolve_overlaps_concat)
  have e3: "segments t ([[e3]] @ ?R3) lp2 = gap3 @ [Group e3 []] @ S3"
    by (simp only: append_Cons append_Nil segments_single gap3_def S3_def)
  have e2: "segments t ([[e2]] @ ?R2 @ [[e3]] @ ?R3) lp1 = gap2 @ [Group e2 []] @ p2 @ gap3 @ [Group e3 []] @ S3"
    using p2 [rule_format, of "[[e3]] @ ?R3"] e3
    by (simp only: append_Cons append_Nil segments_single gap2_def)
  have e1: "segments t ([[e1]] @ ?R1 @ [[e2]] @ ?R2 @ [[e3]] @ ?R3) lp0
      = gap1 @ [Group e1 []] @ p1 @ gap2 @ [Group e2 []] @ p2 @ gap3 @ [Group e3 []] @ S3"
    using p1 [rule_format, of "[[e2]] @ ?R2 @ [[e3]] @ ?R3"] e2
    by (simp only: append_Cons append_Nil segments_single gap1_def)
  have all: "segments t (?R0 @ [[e1]] @ ?R1 @ [[e2]] @ ?R2 @ [[e3]] @ ?R3) lp
      = (p0 @ gap1) @ [Group e1 []] @ (p1 @ gap2) @ [Group e2 []] @ (p2 @ gap3) @ [Group e3 []] @ S3"
    using p0 [rule_format, of "[[e1]] @ ?R1 @ [[e2]] @ ?R2 @ [[e3]] @ ?R3"] e1 by simp
  have n0: "\<forall>seg\<in>set (p0 @ gap1). \<not> shows_span s seg"
    using groups_not_shows [OF g0 o0] gap_not_shows [of _ _ s] by (auto simp: gap1_def)
  have n1: "\<forall>seg\<in>set (p1 @ gap2). \<not> shows_span s seg"
    using groups_not_shows [OF g1 o1] gap_not_shows [of _ _ s] by (auto simp: gap2_def)
  have n2: "\<forall>seg\<in>set (p2 @ gap3). \<not> shows_span s seg"
    using groups_not_shows [OF g2 o2] gap_not_shows [of _ _ s] by (auto simp: gap3_def)
  have n3: "\<forall>seg\<in>set S3. \<not> shows_span s seg"
    by (rule groups_not_shows [OF g3 o3])
  from n0 n1 n2 n3
  have "\<forall>seg\<in>set (p0 @ gap1) \<union> set (p1 @ gap2) \<union> set (p2 @ gap3) \<union> set S3. \<not> shows_span s seg"
    by blast
  with all show ?thesis by blast
qed

text \<open>
  Claim C9, amended. \<open>create_entity_html\<close> puts a superscript with the occurrence index
  after the span text if and only if that index exceeds 1. When a ground-truth span text
  occurs exactly three times in the passage, without overlap, and no span of another
  ground-truth label overlaps or coincides with one of these occurrences, the ground-truth
  spans of that text carry the indices 1, 2, 3 in text order, each is rendered as a group
  of its own, these are the only rendered groups of that text, and their markup carries,
  in text order, no superscript, superscript 2 and superscript 3.
\<close>

theorem occurrence_superscripts:
  assumes lab: "labels it = Some (pre @ [\<lparr>span = s, span_types = tys\<rparr>] @ post)"
    and occ: "find_all_occurrences (item_text it) s = [(a, a'), (b, b'), (c, c')]"
    and ab: "a' \<le> b" and bc: "b' \<le> c"
    and clear: "\<forall>l\<in>set (pre @ post).
        list_all (clear_of [(a, a'), (b, b'), (c, c')]) (find_all_occurrences (item_text it) (span l))"
  shows "(\<forall>e p. create_entity_html e p =
            opening_tag e p @ html_escape (span_text e)
            @ (if 1 < occurrence_id e then ''<sup>'' @ str_int (occurrence_id e) @ ''</sup>'' else [])
            @ tooltip_html e @ ''</span>'')
    \<and> filter (\<lambda>e. span_text e = s) (ground_truth_spans it) =
        [gt_occurrence s tys a a' 1, gt_occurrence s tys b b' 2, gt_occurrence s tys c c' 3]
    \<and> filter (shows_span s)
        (segments (item_text it) (resolve_overlaps (ground_truth_spans it)) 0) =
        [Group (gt_occurrence s tys a a' 1) [], Group (gt_occurrence s tys b b' 2) [],
         Group (gt_occurrence s tys c c' 3) []]
    \<and> segment_html (Group (gt_occurrence s tys a a' 1) []) =
        rendered_with (gt_occurrence s tys a a' 1) []
    \<and> segment_html (Group (gt_occurrence s tys b b' 2) []) =
        rendered_with (gt_occurrence s tys b b' 2) ''<sup>2</sup>''
    \<and> segment_html (Group (gt_occurrence s tys c c' 3) []) =
        rendered_with (gt_occurrence s tys c c' 3) ''<sup>3</sup>''
    \<and> (\<exists>A B C D. markup_text (item_text it) (ground_truth_spans it) =
          Inr (A @ rendered_with (gt_occurrence s tys a a' 1) []
               @ B @ rendered_with (gt_occurrence s tys b b' 2) ''<sup>2</sup>''
               @ C @ rendered_with (gt_occurrence s tys c c' 3) ''<sup>3</sup>'' @ D))"
proof -
  let ?t = "item_text it"
  let ?G = "ground_truth_spans it"
  let ?e1 = "gt_occurrence s tys a a' 1"
  let ?e2 = "gt_occurrence s tys b b' 2"
  let ?e3 = "gt_occurrence s tys c c' 3"
  note three = ground_truth_three_general [OF lab occ ab bc clear]
  have mem: "(a, a') \<in> set (find_all_occurrences ?t s)" "(b, b') \<in> set (find_all_occurrences ?t s)"
    "(c, c') \<in> set (find_all_occurrences ?t s)"
    by (simp_all add: occ)
  from mem [THEN find_all_occurrences_member]
  have le: "a \<le> a'" "b \<le> b'" "c \<le> c'" by simp_all
  from filter_three [OF three(1)] obtain l0 l1 l2 l3 where
    dec: "?G = l0 @ ?e1 # l1 @ ?e2 # l2 @ ?e3 # l3"
    and oth: "\<forall>y\<in>set l0 \<union> set l1 \<union> set l2 \<union> set l3. span_text y \<noteq> s"
    by blast
  have sub: "set l0 \<union> set l1 \<union> set l2 \<union> set l3 \<subseteq> set ?G"
    by (subst dec) auto
  have others: "\<forall>y\<in>set l0 \<union> set l1 \<union> set l2 \<union> set l3.
        \<not> overlaps y ?e1 \<and> \<not> overlaps y ?e2 \<and> \<not> overlaps y ?e3"
    using three(2) oth sub by blast
  have apart: "\<not> overlaps ?e2 ?e1" "\<not> overlaps ?e3 ?e1" "\<not> overlaps ?e3 ?e2"
    using ab bc le by (simp_all add: overlaps_def gt_occurrence_def)
  have groups: "resolve_overlaps ?G =
      resolve_overlaps l0 @ [[?e1]] @ resolve_overlaps l1 @ [[?e2]] @ resolve_overlaps l2 @ [[?e3]]
      @ resolve_overlaps l3"
    by (rule isolated_three_groups [OF dec others apart])
  have same: "span_text ?e1 = s" "span_text ?e2 = s" "span_text ?e3 = s"
    by (simp_all add: gt_occurrence_def)
  from oth have o: "\<forall>y\<in>set l0. span_text y \<noteq> s" "\<forall>y\<in>set l1. span_text y \<noteq> s"
    "\<forall>y\<in>set l2. span_text y \<noteq> s" "\<forall>y\<in>set l3. span_text y \<noteq> s" by simp_all
  from isolated_three_segments [OF same o, of ?t 0] obtain S0 S1 S2 S3 where
    segs: "segments ?t (resolve_overlaps ?G) 0
        = S0 @ [Group ?e1 []] @ S1 @ [Group ?e2 []] @ S2 @ [Group ?e3 []] @ S3"
    and quiet: "\<forall>seg\<in>set S0 \<union> set S1 \<union> set S2 \<union> set S3. \<not> shows_span s seg"
    unfolding groups by blast
  from quiet have q: "filter (shows_span s) S0 = []" "filter (shows_span s) S1 = []"
    "filter (shows_span s) S2 = []" "filter (shows_span s) S3 = []"
    by (simp_all add: filter_empty_conv)
  have shown: "filter (shows_span s) (segments ?t (resolve_overlaps ?G) 0) =
      [Group ?e1 [], Group ?e2 [], Group ?e3 []]"
    unfolding segs by (simp add: q shows_span_def same)
  have sup: "occurrence_suffix ?e1 = []" "occurrence_suffix ?e2 = ''<sup>2</sup>''"
    "occurrence_suffix ?e3 = ''<sup>3</sup>''"
    by (simp_all add: occurrence_suffix_def gt_occurrence_def str_int_2 str_int_3)
  have h1: "segment_html (Group ?e1 []) = rendered_with ?e1 []"
    by (simp only: single_group_html sup)
  have h2: "segment_html (Group ?e2 []) = rendered_with ?e2 ''<sup>2</sup>''"
    by (simp only: single_group_html sup)
  have h3: "segment_html (Group ?e3 []) = rendered_with ?e3 ''<sup>3</sup>''"
    by (simp only: single_group_html sup)
  have "markup_text ?t ?G =
      Inr (concat (map segment_html S0) @ rendered_with ?e1 []
           @ concat (map segment_html S1) @ rendered_with ?e2 ''<sup>2</sup>''
           @ concat (map segment_html S2) @ rendered_with ?e3 ''<sup>3</sup>''
           @ concat (map segment_html S3))"
    unfolding markup_text_segments segs
    by (simp only: map_append concat_append list.map concat.simps append_Nil2 h1 h2 h3)
  then have ex: "\<exists>A B C D. markup_text ?t ?G =
          Inr (A @ rendered_with ?e1 [] @ B @ rendered_with ?e2 ''<sup>2</sup>''
               @ C @ rendered_with ?e3 ''<sup>3</sup>'' @ D)"
    by blast
  from create_entity_html_suffix three(1) shown h1 h2 h3 ex show ?thesis by blast
qed

lemma two_label_occurrences:
  "find_all_occurrences (item_text two_label_item) ''ab'' = [(0, 2), (3, 5), (6, 8)]"
  by code_simp

lemma two_label_other:
  "find_all_occurrences (item_text two_label_item) ''xy'' = [(9, 11)]"
  by code_simp

theorem occurrence_superscripts_witness:
  "labels two_label_item =
      Some ([\<lparr>span = ''xy'', span_types = [''E53 Place'']\<rparr>]
            @ [\<lparr>span = ''ab'', span_types = [''E21 Person'']\<rparr>] @ [])
   \<and> find_all_occurrences (item_text two_label_item) ''ab'' = [(0, 2), (3, 5), (6, 8)]
   \<and> (2::nat) \<le> 3 \<and> (5::nat) \<le> 6
   \<and> list_all (\<lambda>l. list_all (clear_of [(0, 2), (3, 5), (6, 8)])
          (find_all_occurrences (item_text two_label_item) (span l)))
        ([\<lparr>span = ''xy'', span_types = [''E53 Place'']\<rparr>] @ [])
   \<and> filter (\<lambda>e. span_text e = ''ab'') (ground_truth_spans two_label_item) =
        [gt_occurrence ''ab'' [''E21 Person''] 0 2 1, gt_occurrence ''ab'' [''E21 Person''] 3 5 2,
         gt_occurrence ''ab'' [''E21 Person''] 6 8 3]
   \<and> filter (shows_span ''ab'')
        (segments (item_text two_label_item) (resolve_overlaps (ground_truth_spans two_label_item)) 0) =
        [Group (gt_occurrence ''ab'' [''E21 Person''] 0 2 1) [],
         Group (gt_occurrence ''ab'' [''E21 Person''] 3 5 2) [],
         Group (gt_occurrence ''ab'' [''E21 Person''] 6 8 3) []]
   \<and> (\<exists>A B C D. markup_text (item_text two_label_item) (ground_truth_spans two_label_item) =
          Inr (A @ rendered_with (gt_occurrence ''ab'' [''E21 Person''] 0 2 1) []
               @ B @ rendered_with (gt_occurrence ''ab'' [''E21 Person''] 3 5 2) ''<sup>2</sup>''
               @ C @ rendered_with (gt_occurrence ''ab'' [''E21 Person''] 6 8 3) ''<sup>3</sup>'' @ D))"
proof -
  have h1: "labels two_label_item =
      Some ([\<lparr>span = ''xy'', span_types = [''E53 Place'']\<rparr>]
            @ [\<lparr>span = ''ab'', span_types = [''E21 Person'']\<rparr>] @ [])"
    by (simp add: two_label_item_def)
  have h2: "find_all_occurrences (item_text two_label_item) ''ab'' = [(0, 2), (3, 5), (6, 8)]"
    by (rule two_label_occurrences)
  have h3: "(2::nat) \<le> 3" by simp
  have h4: "(5::nat) \<le> 6" by simp
  have c: "list_all (\<lambda>l. list_all (clear_of [(0, 2), (3, 5), (6, 8)])
          (find_all_occurrences (item_text two_label_item) (span l)))
        ([\<lparr>span = ''xy'', span_types = [''E53 Place'']\<rparr>] @ [])"
    by (simp add: two_label_other clear_of_def pair_overlaps_def)
  then have h5: "\<forall>l\<in>set ([\<lparr>span = ''xy'', span_types = [''E53 Place'']\<rparr>] @ []).
        list_all (clear_of [(0, 2), (3, 5), (6, 8)])
          (find_all_occurrences (item_text two_label_item) (span l))"
    by (simp only: list_all_iff)
  from occurrence_superscripts [OF h1 h2 h3 h4 h5] h1 h2 h3 h4 c show ?thesis by blast
qed

text \<open>
  Without the condition on the other labels the claim fails: in \<open>ab ab xx ab\<close> with the
  labels \<open>ab ab\<close> and \<open>ab\<close>, the first two occurrences of \<open>ab\<close> fall into the group of
  \<open>ab ab\<close> and are not rendered, so the output has no superscript 2.
\<close>

lemma overlapped_occurrences:
  "find_all_occurrences (item_text overlapped_item) ''ab'' = [(0, 2), (3, 5), (9, 11)]"
  by code_simp

lemma overlapped_spans:
  "ground_truth_spans overlapped_item =
     [overlapped_outer, gt_occurrence ''ab'' [''E53 Place''] 0 2 1,
      gt_occurrence ''ab'' [''E53 Place''] 3 5 2, gt_occurrence ''ab'' [''E53 Place''] 9 11 3]"
  by code_simp

lemma overlapped_groups:
  "resolve_overlaps
     [overlapped_outer, gt_occurrence ''ab'' [''E53 Place''] 0 2 1,
      gt_occurrence ''ab'' [''E53 Place''] 3 5 2, gt_occurrence ''ab'' [''E53 Place''] 9 11 3]
   = [[overlapped_outer, gt_occurrence ''ab'' [''E53 Place''] 0 2 1,
       gt_occurrence ''ab'' [''E53 Place''] 3 5 2],
      [gt_occurrence ''ab'' [''E53 Place''] 9 11 3]]"
  by (simp add: resolve_overlaps_def overlaps_def overlapped_outer_def gt_occurrence_def)

lemma overlapped_segments:
  "segments ''ab ab xx ab''
     [[overlapped_outer, gt_occurrence ''ab'' [''E53 Place''] 0 2 1,
       gt_occurrence ''ab'' [''E53 Place''] 3 5 2],
      [gt_occurrence ''ab'' [''E53 Place''] 9 11 3]] 0
   = [Group overlapped_outer
        [gt_occurrence ''ab'' [''E53 Place''] 0 2 1, gt_occurrence ''ab'' [''E53 Place''] 3 5 2],
      Gap '' xx '',
      Group (gt_occurrence ''ab'' [''E53 Place''] 9 11 3) []]"
  by (simp add: group_start_def group_end_def overlapped_outer_def gt_occurrence_def
      py_slice_def slice_index_def)

lemma overlapped_outer_no_title:
  \<open>\<not> py_contains (create_entity_html overlapped_outer True) ''title="''\<close>
  unfolding py_contains_scan by code_simp

lemma overlapped_markup:
  "markup_text (item_text overlapped_item) (ground_truth_spans overlapped_item) =
     Inr (create_entity_html overlapped_outer True @ '' xx ''
          @ create_entity_html (gt_occurrence ''ab'' [''E53 Place''] 9 11 3) True)"
proof -
  have t: "item_text overlapped_item = ''ab ab xx ab''" by (simp add: overlapped_item_def)
  show ?thesis
    unfolding markup_text_segments overlapped_spans overlapped_groups t overlapped_segments
    by (simp add: add_secondary_info_absent [OF overlapped_outer_no_title]
        add_secondary_info_none html_escape_def escape_char_def)
qed

lemma overlapped_no_second:
  "\<not> py_contains (create_entity_html overlapped_outer True @ '' xx ''
          @ create_entity_html (gt_occurrence ''ab'' [''E53 Place''] 9 11 3) True) ''<sup>2</sup>''"
  unfolding py_contains_scan by code_simp

theorem occurrence_superscripts_overlap_counterexample:
  "find_all_occurrences (item_text overlapped_item) ''ab'' = [(0, 2), (3, 5), (9, 11)]
   \<and> markup_text (item_text overlapped_item) (ground_truth_spans overlapped_item) =
       Inr (create_entity_html overlapped_outer True @ '' xx ''
            @ create_entity_html (gt_occurrence ''ab'' [''E53 Place''] 9 11 3) True)
   \<and> \<not> py_contains (create_entity_html overlapped_outer True @ '' xx ''
          @ create_entity_html (gt_occurrence ''ab'' [''E53 Place''] 9 11 3) True) ''<sup>2</sup>''"
  using overlapped_occurrences overlapped_markup overlapped_no_second by blast

section \<open>Secondary spans of an overlap group\<close>

lemma nested_outer_no_title:
  \<open>\<not> py_contains (create_entity_html nested_outer True) ''title="''\<close>
  unfolding py_contains_scan by code_simp

lemma nested_example_groups: "resolve_overlaps nested_example = [[nested_outer, nested_inner]]"
  by (simp add: nested_example_def nested_outer_def nested_inner_def resolve_overlaps_def
      overlaps_def)

lemma nested_example_segments:
  "segments ''abcde'' [[nested_outer, nested_inner]] 0 = [Group nested_outer [nested_inner]]"
  by (simp add: group_start_def group_end_def nested_outer_def nested_inner_def)

lemma nested_example_markup:
  "markup_text ''abcde'' nested_example = Inr (create_entity_html nested_outer True)"
  unfolding markup_text_segments nested_example_groups nested_example_segments
  by (simp add: add_secondary_info_absent [OF nested_outer_no_title])

lemma nested_outer_no_types:
  "\<not> py_contains (create_entity_html nested_outer True) ''E53 Place''"
  unfolding py_contains_scan by code_simp

lemma nested_outer_no_also:
  "\<not> py_contains (create_entity_html nested_outer True) ''Also annotated as''"
  unfolding py_contains_scan by code_simp

text \<open>
  Claim C1 fails on the code. For the overlap group of \<open>abcde\<close> (types \<open>E21 Person\<close>) and
  \<open>bc\<close> (types \<open>E53 Place\<close>), the fragment that \<open>markup_text\<close> emits is the markup of the
  primary span alone: the replacement that should add the summaries looks for a
  \<^verbatim>\<open>title="\<close> attribute, which the markup of a span never has, so the fragment contains
  neither the heading of the summaries nor the type list of the secondary span.
\<close>

theorem markup_text_secondary_summary_missing:
  \<open>markup_text ''abcde'' nested_example = Inr (create_entity_html nested_outer True)
   \<and> secondary_summary nested_inner = ''Ground Truth: E53 Place''
   \<and> \<not> py_contains (create_entity_html nested_outer True) ''title="''
   \<and> \<not> py_contains (create_entity_html nested_outer True) ''Also annotated as''
   \<and> \<not> py_contains (create_entity_html nested_outer True) ''E53 Place''\<close>
proof -
  have "secondary_summary nested_inner = ''Ground Truth: E53 Place''"
    by (simp add: secondary_summary_def nested_inner_def format_types_def)
  with nested_example_markup nested_outer_no_title nested_outer_no_also nested_outer_no_types
  show ?thesis by blast
qed

section \<open>Escaping\<close>

lemma html_escape_no_markup:
  "set (html_escape s) \<inter> {CHR ''<'', CHR ''>'', CHR 0x22, CHR 0x27} = {}"
  by (induction s) (auto simp: html_escape_def escape_char_def)

text \<open>
  Claim C2 fails on the code for the entity type strings. The passage text and the span
  text go through \<open>html_escape\<close>, the types do not: for a span with the type \<^verbatim>\<open><b>\<close> the
  markup holds the type unescaped, in the \<^verbatim>\<open>data-types\<close> attribute and in the list item of
  the hover detail, and nowhere escaped.
\<close>

theorem create_entity_html_type_unescaped:
  \<open>py_contains (create_entity_html unescaped_type_example True) ''data-types="<b>"''
   \<and> py_contains (create_entity_html unescaped_type_example True) ''><b></li>''
   \<and> \<not> py_contains (create_entity_html unescaped_type_example True) ''&lt;b&gt;''\<close>
  unfolding py_contains_scan by code_simp

section \<open>Text shown for an overlap group\<close>








section \<open>Visible text of the markup\<close>

lemma plain_simps [simp]:
  "plain []"
  "plain (c # x) = (c \<noteq> CHR ''<'' \<and> c \<noteq> CHR ''>'' \<and> plain x)"
  "plain (x @ y) = (plain x \<and> plain y)"
  by (auto simp: plain_def)








lemma digit_chars: "list_all (\<lambda>k. digit_char k \<in> set ''0123456789'') [0..<10]"
  by code_simp

lemma digit_char_range: "k < 10 \<Longrightarrow> digit_char k \<in> set ''0123456789''"
proof -
  assume "k < 10"
  then have "k \<in> set [0..<10]" by simp
  with digit_chars show ?thesis by (simp only: list_all_iff)
qed

lemma str_nat_digits: "set (str_nat n) \<subseteq> set ''0123456789''"
proof (induction n rule: str_nat.induct)
  case (1 n)
  show ?case
  proof (cases "n < 10")
    case True
    then have "str_nat n = [digit_char n]" by (simp add: str_nat.simps [of n])
    with digit_char_range [OF True] show ?thesis by simp
  next
    case False
    then have "str_nat n = str_nat (n div 10) @ [digit_char (n mod 10)]"
      by (simp add: str_nat.simps [of n])
    moreover have "digit_char (n mod 10) \<in> set ''0123456789''"
      by (rule digit_char_range) simp
    ultimately show ?thesis using "1.IH" [OF False] by simp
  qed
qed

lemma inert_str_nat: "inert (str_nat n)"
  using str_nat_digits [of n] by (auto simp: inert_def plain_def)

lemma inert_str_int: "inert (str_int i)"
  using inert_str_nat by (auto simp: str_int_def inert_def plain_def)

lemma plain_str_nat [simp]: "plain (str_nat n)"
  using inert_str_nat [of n] by (simp add: inert_def)

lemma plain_str_int [simp]: "plain (str_int i)"
  using inert_str_int [of i] by (simp add: inert_def)

lemma plain_source_name [simp]: "plain (source_name s)"
  by (cases s) simp_all

lemma plain_source_labels [simp]: "plain (source_labels s)"
  by (cases s) simp_all

lemma plain_color: "entity_colors ty = Some c \<Longrightarrow> plain c"
  by (auto simp: entity_colors_def entity_colors_table_def split: if_splits)

lemma plain_default_color [simp]: "plain default_color"
  by (simp add: default_color_def)

lemma plain_type_color [simp]:
  "plain (case entity_colors ty of Some c \<Rightarrow> c | None \<Rightarrow> default_color)"
  by (auto split: option.splits dest: plain_color)

lemma plain_primary_color [simp]: "plain (get_primary_color tys)"
  by (induction tys) (auto split: option.splits dest: plain_color)

lemma plain_known_colors: "c \<in> set (known_colors tys) \<Longrightarrow> plain c"
  by (auto simp: known_colors_def List.map_filter_def dest: plain_color)

lemma plain_py_join: "plain sep \<Longrightarrow> \<forall>x\<in>set xs. plain x \<Longrightarrow> plain (py_join sep xs)"
  by (induction sep xs rule: py_join.induct) simp_all

lemma plain_gradient_stop: "plain c \<Longrightarrow> plain (gradient_stop w i c)"
  by (simp add: gradient_stop_def)

lemma plain_combined_colors [simp]:
  "plain (fst (get_combined_colors tys))" "plain (snd (get_combined_colors tys))"
proof -
  have k: "\<forall>c\<in>set (known_colors tys). plain c" by (blast intro: plain_known_colors)
  have stops: "plain (py_join '', '' (map (\<lambda>(i, color). gradient_stop w i color) (enumerate 0 cs)))"
    if "\<forall>c\<in>set cs. plain c" for w cs
  proof (rule plain_py_join)
    show "plain '', ''" by simp
    show "\<forall>x\<in>set (map (\<lambda>(i, color). gradient_stop w i color) (enumerate 0 cs)). plain x"
      using that by (auto simp: in_set_enumerate_eq intro!: plain_gradient_stop)
  qed
  show "plain (fst (get_combined_colors tys))"
    using k by (auto simp: get_combined_colors_def Let_def split: list.splits)
  show "plain (snd (get_combined_colors tys))"
  proof (cases "known_colors tys")
    case Nil
    then show ?thesis by (simp add: get_combined_colors_def)
  next
    case (Cons c0 r0)
    show ?thesis
    proof (cases r0)
      case Nil
      with Cons k show ?thesis by (simp add: get_combined_colors_def)
    next
      case r0: (Cons c1 r1)
      show ?thesis
      proof (cases r1)
        case Nil
        with Cons r0 k show ?thesis by (simp add: get_combined_colors_def)
      next
        case r1: (Cons c2 r2)
        from k have "\<forall>c\<in>set (c0 # c1 # c2 # r2). plain c" by (simp add: Cons r0 r1)
        from stops [OF this] Cons r0 r1 show ?thesis
          by (simp add: get_combined_colors_def Let_def)
      qed
    qed
  qed
qed

lemma plain_multi_label_class [simp]: "plain (multi_label_class p)"
  by (simp add: multi_label_class_def)

lemma plain_background_style [simp]: "plain (background_style p)"
  by (simp add: background_style_def)

lemma plain_css_variables [simp]: "plain (css_variables p)"
proof -
  have k: "\<forall>c\<in>set (known_colors (types p)). plain c" by (blast intro: plain_known_colors)
  then show ?thesis
    by (auto simp: css_variables_def split: list.splits)
qed

lemma plain_type_count_attr [simp]: "plain (type_count_attr p)"
  by (simp add: type_count_attr_def)


lemma plain_html_escape [simp]: "plain (html_escape x)"
  by (induction x) (auto simp: html_escape_def escape_char_def)
























text \<open>
  The condition on the type strings is needed: a type is written into the markup as it is,
  so the type \<^verbatim>\<open><div>\<close> ends the opening tag early and opens an element that is never
  closed, and the passage text after the span is no longer shown.
\<close>

lemma div_type_markup:
  "markup_text ''ab'' [div_type_example] = Inr (create_entity_html div_type_example True @ ''b'')"
  by (simp add: markup_text_segments resolve_overlaps_def group_start_def group_end_def
      div_type_example_def add_secondary_info_none py_slice_from_def slice_index_def
      html_escape_def escape_char_def)

lemma div_type_visible_text:
  \<open>visible_text (create_entity_html div_type_example True @ ''b'') = ''" >a'' @ nl @ ''        ''\<close>
  by code_simp

end
